theory Spec2Isabelle
  imports Complex_Main
begin

section \<open>Python and numpy primitives used by the sources\<close>

text \<open>
  Samples, radii and loss rates are Python floats in the sources.  They are modelled as
  \<^typ>\<open>real\<close>: the development is about the index arithmetic and the propagation
  protocol.  Rounding, infinities and NaN are not modelled; the range of the doubles is
  modelled where Python turns it into an exception (\<open>py_pow\<close> below), and the theorems
  about computed values keep to inputs on which the float operations involved are exact.
  Delays, pointers and indices are Python integers, modelled as \<^typ>\<open>int\<close>.  Every
  exception the sources can raise is a value of \<open>error\<close>, returned on the left of a sum.
\<close>

datatype error = IndexError | ZeroDivisionError | ValueError | TypeError | OverflowError

text \<open>
  Resolving a subscript against a sequence of \<open>len\<close> elements: indices from \<open>- len\<close>
  to \<open>-1\<close> address the sequence from its end, and anything outside
  \<open>- len \<dots> len - 1\<close> raises.
\<close>

definition py_index :: "nat \<Rightarrow> int \<Rightarrow> error + nat" where
  "py_index len i =
     (if 0 \<le> i \<and> i < int len then Inr (nat i)
      else if - int len \<le> i \<and> i < 0 then Inr (nat (int len + i))
      else Inl IndexError)"

text \<open>The read \<^verbatim>\<open>xs[i]\<close> and the write \<^verbatim>\<open>xs[i] = v\<close>.\<close>

definition py_get :: "'a list \<Rightarrow> int \<Rightarrow> error + 'a" where
  "py_get xs i = (case py_index (length xs) i of Inl e \<Rightarrow> Inl e | Inr j \<Rightarrow> Inr (xs ! j))"

definition py_set :: "'a list \<Rightarrow> int \<Rightarrow> 'a \<Rightarrow> error + 'a list" where
  "py_set xs i v =
     (case py_index (length xs) i of Inl e \<Rightarrow> Inl e | Inr j \<Rightarrow> Inr (xs[j := v]))"

text \<open>\<^verbatim>\<open>xs[:stop]\<close>: a negative stop counts from the end; the slice never raises.\<close>

definition py_slice_to :: "'a list \<Rightarrow> int \<Rightarrow> 'a list" where
  "py_slice_to xs stop =
     (if stop < 0 then take (nat (int (length xs) + stop)) xs else take (nat stop) xs)"

text \<open>
  The range of a binary64 float: a real of magnitude at least \<open>2 ^ 1024 - 2 ^ 970\<close>
  rounds to an infinity, and one of magnitude at most \<open>1 / 2 ^ 1075\<close> rounds to zero.
\<close>

definition float_overflows :: "real \<Rightarrow> bool" where
  "float_overflows x \<longleftrightarrow> 2 ^ 1024 - 2 ^ 970 \<le> \<bar>x\<bar>"

definition float_underflows :: "real \<Rightarrow> bool" where
  "float_underflows x \<longleftrightarrow> \<bar>x\<bar> \<le> 1 / 2 ^ 1075"

text \<open>
  \<^verbatim>\<open>b ** e\<close> for a float base and an integer exponent: zero to a negative power raises
  \<^verbatim>\<open>ZeroDivisionError\<close>, a result too large for a float raises \<^verbatim>\<open>OverflowError\<close>, and a
  result too small for a float is zero.
\<close>

definition py_pow :: "real \<Rightarrow> int \<Rightarrow> error + real" where
  "py_pow b e =
     (if b = 0 \<and> e < 0 then Inl ZeroDivisionError
      else
       (let p = (if 0 \<le> e then b ^ nat e else 1 / b ^ nat (- e))
        in if float_overflows p then Inl OverflowError
           else if float_underflows p then Inr 0
           else Inr p))"

text \<open>\<^verbatim>\<open>np.zeros(n)\<close> raises on a negative dimension.\<close>

definition np_zeros :: "int \<Rightarrow> error + real list" where
  "np_zeros n = (if n < 0 then Inl ValueError else Inr (replicate (nat n) 0))"

definition np_flipud :: "'a list \<Rightarrow> 'a list" where
  "np_flipud xs = rev xs"

text \<open>\<^verbatim>\<open>np.roll(a, s)\<close>: element \<open>i\<close> of the result is element \<open>(i - s) mod n\<close> of \<open>a\<close>.\<close>

definition np_roll :: "'a list \<Rightarrow> int \<Rightarrow> 'a list" where
  "np_roll xs s =
     (let n = length xs
      in map (\<lambda>i. xs ! nat ((int i - s) mod int n)) [0..<n])"

text \<open>
  Elementwise product and sum of two one-dimensional arrays, with numpy's broadcasting:
  equal lengths combine pointwise, a length-one array is stretched, anything else raises.
\<close>

definition np_broadcast ::
  "(real \<Rightarrow> real \<Rightarrow> real) \<Rightarrow> real list \<Rightarrow> real list \<Rightarrow> error + real list" where
  "np_broadcast f xs ys =
     (if length xs = length ys then Inr (map2 f xs ys)
      else if length xs = 1 then Inr (map (\<lambda>y. f (hd xs) y) ys)
      else if length ys = 1 then Inr (map (\<lambda>x. f x (hd ys)) xs)
      else Inl ValueError)"

definition np_mul :: "real list \<Rightarrow> real list \<Rightarrow> error + real list" where
  "np_mul = np_broadcast (\<lambda>x y. x * y)"

definition np_add :: "real list \<Rightarrow> real list \<Rightarrow> error + real list" where
  "np_add = np_broadcast (\<lambda>x y. x + y)"

section \<open>delay\_lines.py: the circular delay line\<close>

record DelayLine =
  line :: "real list"
  ptr :: int
  n_samp :: int
  delay :: int
  nticks :: int

definition DelayLine_init :: "int \<Rightarrow> int \<Rightarrow> error + DelayLine" where
  "DelayLine_init dly ext =
     (let n = dly + ext
      in case np_zeros n of
           Inl e \<Rightarrow> Inl e
         | Inr z \<Rightarrow> Inr \<lparr>line = z, ptr = 0, n_samp = n, delay = dly, nticks = 0\<rparr>)"

definition increase_ptr :: "DelayLine \<Rightarrow> DelayLine" where
  "increase_ptr dl =
     (let p = ptr dl + 1;
          q = (if p > int (length (line dl)) - 1 then 0 else p)
      in dl\<lparr>ptr := q, nticks := nticks dl + 1\<rparr>)"

definition insert_sample :: "DelayLine \<Rightarrow> real \<Rightarrow> error + DelayLine" where
  "insert_sample dl smp =
     (let dl1 = increase_ptr dl
      in case py_set (line dl1) (ptr dl1) smp of
           Inl e \<Rightarrow> Inl e
         | Inr l \<Rightarrow> Inr (dl1\<lparr>line := l\<rparr>))"

text \<open>\<open>read_delay dl None\<close> is the call without argument: the offset is the configured delay.\<close>

definition read_delay :: "DelayLine \<Rightarrow> int option \<Rightarrow> error + real" where
  "read_delay dl dopt =
     (let d = (case dopt of None \<Rightarrow> DelayLine.delay dl | Some k \<Rightarrow> k)
      in if n_samp dl = 0 then Inl ZeroDivisionError
         else py_get (line dl) ((ptr dl - d) mod n_samp dl))"

definition dump_line :: "DelayLine \<Rightarrow> real list" where
  "dump_line dl = py_slice_to (np_roll (np_flipud (line dl)) (ptr dl + 1)) (DelayLine.delay dl)"

text \<open>A sequence of \<open>insert_sample\<close> calls, oldest sample first.\<close>

fun insert_samples :: "DelayLine \<Rightarrow> real list \<Rightarrow> error + DelayLine" where
  "insert_samples dl [] = Inr dl"
| "insert_samples dl (x # xs) =
     (case insert_sample dl x of Inl e \<Rightarrow> Inl e | Inr dl1 \<Rightarrow> insert_samples dl1 xs)"

text \<open>
  The sample that was inserted \<open>k\<close> ticks before the last one of \<open>xs\<close>, or the
  initialisation zero when \<open>xs\<close> is too short.
\<close>

definition sample_ago :: "real list \<Rightarrow> int \<Rightarrow> real" where
  "sample_ago xs k = (if 0 \<le> k \<and> nat k < length xs then rev xs ! nat k else 0)"

text \<open>A fresh line of the given delay and headroom, after inserting \<open>xs\<close>.\<close>

definition run_delay_line :: "int \<Rightarrow> int \<Rightarrow> real list \<Rightarrow> error + DelayLine" where
  "run_delay_line dly ext xs =
     (case DelayLine_init dly ext of Inl e \<Rightarrow> Inl e | Inr dl \<Rightarrow> insert_samples dl xs)"

definition read_after :: "int \<Rightarrow> int \<Rightarrow> real list \<Rightarrow> int \<Rightarrow> error + real" where
  "read_after dly ext xs k =
     (case run_delay_line dly ext xs of Inl e \<Rightarrow> Inl e | Inr dl \<Rightarrow> read_delay dl (Some k))"

subsection \<open>Invariant of the delay line\<close>

text \<open>
  A line is well formed when its store has \<open>n_samp\<close> slots and the pointer is one of
  them.  It holds the history \<open>xs\<close> when the slot \<open>k\<close> places behind the pointer
  (modulo the capacity) has the sample inserted \<open>k\<close> ticks ago.
\<close>

definition dl_wf :: "DelayLine \<Rightarrow> bool" where
  "dl_wf dl \<longleftrightarrow>
     0 < n_samp dl \<and> int (length (line dl)) = n_samp dl \<and> 0 \<le> ptr dl \<and> ptr dl < n_samp dl"

definition dl_holds :: "DelayLine \<Rightarrow> real list \<Rightarrow> bool" where
  "dl_holds dl xs \<longleftrightarrow>
     dl_wf dl \<and>
     (\<forall>k. 0 \<le> k \<and> k < n_samp dl \<longrightarrow>
        line dl ! nat ((ptr dl - k) mod n_samp dl) = sample_ago xs k)"

section \<open>simple\_delay\_tubes.py: a tube as a pair of delay lines\<close>

text \<open>
  The fields \<^verbatim>\<open>scat\<close>, \<^verbatim>\<open>tube_l\<close> and \<^verbatim>\<open>tube_r\<close> of the class are set to \<^verbatim>\<open>None\<close> and never
  used; they are left out.  The field \<open>delay\<close> of a tube shares its name with the one of
  a delay line, which is written \<open>DelayLine.delay\<close> from here on.
\<close>

record Tube =
  extra :: int
  dlin :: DelayLine
  dlout :: DelayLine
  delay :: int
  prop_mult :: real
  smpl_prop_mult :: real

definition Tube_init :: "int \<Rightarrow> real \<Rightarrow> error + Tube" where
  "Tube_init dly losses =
     (case DelayLine_init dly 5 of
        Inl e \<Rightarrow> Inl e
      | Inr li \<Rightarrow>
     (case DelayLine_init dly 5 of
        Inl e \<Rightarrow> Inl e
      | Inr lo \<Rightarrow>
     (case py_pow (1 - losses) dly of
        Inl e \<Rightarrow> Inl e
      | Inr pm \<Rightarrow>
          Inr \<lparr>extra = 5, dlin = li, dlout = lo, delay = dly, prop_mult = pm,
               smpl_prop_mult = 1 - losses\<rparr>)))"

definition insert_incoming_sample :: "Tube \<Rightarrow> real \<Rightarrow> error + Tube" where
  "insert_incoming_sample t smp =
     (case insert_sample (dlin t) smp of Inl e \<Rightarrow> Inl e | Inr l \<Rightarrow> Inr (t\<lparr>dlin := l\<rparr>))"

definition insert_outgoing_sample :: "Tube \<Rightarrow> real \<Rightarrow> error + Tube" where
  "insert_outgoing_sample t smp =
     (case insert_sample (dlout t) smp of Inl e \<Rightarrow> Inl e | Inr l \<Rightarrow> Inr (t\<lparr>dlout := l\<rparr>))"

definition read_outgoing :: "Tube \<Rightarrow> error + real" where
  "read_outgoing t =
     (case read_delay (dlout t) (Some (DelayLine.delay (dlout t) - 2)) of
        Inl e \<Rightarrow> Inl e
      | Inr v \<Rightarrow> Inr (v * prop_mult t))"

definition read_incoming :: "Tube \<Rightarrow> error + real" where
  "read_incoming t =
     (case read_delay (dlin t) (Some (DelayLine.delay (dlin t) - 2)) of
        Inl e \<Rightarrow> Inl e
      | Inr v \<Rightarrow> Inr (v * prop_mult t))"

definition read_incoming_at_pos :: "Tube \<Rightarrow> int \<Rightarrow> error + real" where
  "read_incoming_at_pos t index =
     (case read_delay (dlin t) (Some (delay t - index)) of
        Inl e \<Rightarrow> Inl e
      | Inr v \<Rightarrow>
     (case py_pow (smpl_prop_mult t) (delay t - index) of
        Inl e \<Rightarrow> Inl e
      | Inr m \<Rightarrow> Inr (v * m)))"

definition read_outgoing_at_pos :: "Tube \<Rightarrow> int \<Rightarrow> error + real" where
  "read_outgoing_at_pos t index =
     (case read_delay (dlout t) (Some index) of
        Inl e \<Rightarrow> Inl e
      | Inr v \<Rightarrow>
     (case py_pow (smpl_prop_mult t) index of
        Inl e \<Rightarrow> Inl e
      | Inr m \<Rightarrow> Inr (v * m)))"

definition get_sum_at_pos :: "Tube \<Rightarrow> int \<Rightarrow> error + real" where
  "get_sum_at_pos t index =
     (case read_incoming_at_pos t index of
        Inl e \<Rightarrow> Inl e
      | Inr pini \<Rightarrow>
     (case read_outgoing_at_pos t index of
        Inl e \<Rightarrow> Inl e
      | Inr pouti \<Rightarrow> Inr (pini + pouti)))"

text \<open>\<^verbatim>\<open>smpl_prop_mult ** np.arange(delay + 1)\<close>: the powers \<open>0 \<dots> delay\<close> of the factor.\<close>

definition pmults :: "Tube \<Rightarrow> real list" where
  "pmults t = map (\<lambda>k. smpl_prop_mult t ^ k) [0..<nat (delay t + 1)]"

definition get_sum_distribution :: "Tube \<Rightarrow> error + real list" where
  "get_sum_distribution t =
     (case np_mul (dump_line (dlout t)) (pmults t) of
        Inl e \<Rightarrow> Inl e
      | Inr pout \<Rightarrow>
     (case np_mul (dump_line (dlin t)) (pmults t) of
        Inl e \<Rightarrow> Inl e
      | Inr pin0 \<Rightarrow> np_add pout (np_flipud pin0)))"

section \<open>simple\_delay\_tubes.py: the assembly of tubes\<close>

text \<open>A scattering matrix \<^verbatim>\<open>[[a, b], [c, d]]\<close> is the pair of its rows.\<close>

type_synonym scat_matrix = "(real \<times> real) \<times> (real \<times> real)"

definition m00 :: "scat_matrix \<Rightarrow> real" where "m00 M = fst (fst M)"
definition m01 :: "scat_matrix \<Rightarrow> real" where "m01 M = snd (fst M)"
definition m10 :: "scat_matrix \<Rightarrow> real" where "m10 M = fst (snd M)"
definition m11 :: "scat_matrix \<Rightarrow> real" where "m11 M = snd (snd M)"

definition open_end :: scat_matrix where
  "open_end = ((0, 1), (- 1, 0))"

definition mat_div :: "scat_matrix \<Rightarrow> real \<Rightarrow> scat_matrix" where
  "mat_div M s = ((m00 M / s, m01 M / s), (m10 M / s, m11 M / s))"

record TubeAssembly =
  tubes :: "Tube list"
  scats :: "scat_matrix list"
  radii :: "real list"

definition TubeAssembly_init :: TubeAssembly where
  "TubeAssembly_init = \<lparr>tubes = [], scats = [], radii = []\<rparr>"

text \<open>
  The construction formula of \<open>connect_tubes\<close> as a function of the radius on the left and
  the radius on the right of a junction.
\<close>

definition newscat :: "real \<Rightarrow> real \<Rightarrow> scat_matrix" where
  "newscat r_left r_right =
     (let scr = 1 / r_right ^ 2; scl = 1 / r_left ^ 2
      in mat_div ((2 * scr, scl - scr), (scr - scl, 2 * scl)) (scr + scl))"

text \<open>
  \<^verbatim>\<open>1/self.radii[index]**2\<close>: the square can overflow, and the division raises when the
  square is zero, which it also is for a radius whose square is too small for a float.
  For a square in the subnormal range the quotient of the floats is an infinity; the model
  keeps the exact quotient there, and the theorems about the matrix keep to radii whose
  squares are far from that range.
\<close>

definition inv_square :: "real \<Rightarrow> error + real" where
  "inv_square r =
     (case py_pow r 2 of
        Inl e \<Rightarrow> Inl e
      | Inr sq \<Rightarrow> if sq = 0 then Inl ZeroDivisionError else Inr (1 / sq))"

text \<open>
  When both factors can be computed they are \<open>1 / r_right\<^sup>2\<close> and \<open>1 / r_left\<^sup>2\<close>, and
  the matrix stored is the one of \<open>newscat\<close>.
\<close>

definition connect_tubes :: "TubeAssembly \<Rightarrow> int \<Rightarrow> error + TubeAssembly" where
  "connect_tubes a index =
     (let idx = (if index < 0 then int (length (tubes a)) + index else index)
      in if idx = 0 then Inr a
         else
          (case py_get (radii a) idx of
             Inl e \<Rightarrow> Inl e
           | Inr r_right \<Rightarrow>
          (case inv_square r_right of
             Inl e \<Rightarrow> Inl e
           | Inr scr \<Rightarrow>
          (case py_get (radii a) (idx - 1) of
             Inl e \<Rightarrow> Inl e
           | Inr r_left \<Rightarrow>
          (case inv_square r_left of
             Inl e \<Rightarrow> Inl e
           | Inr scl \<Rightarrow>
          (case py_set (scats a) (idx - 1)
                  (mat_div ((2 * scr, scl - scr), (scr - scl, 2 * scl)) (scr + scl)) of
             Inl e \<Rightarrow> Inl e
           | Inr s \<Rightarrow> Inr (a\<lparr>scats := s\<rparr>)))))))"

text \<open>
  An exception leaves the assembly as the call has changed it so far: a failure of the
  constructor leaves it as it was, and a failure of \<open>connect_tubes\<close> leaves the new tube,
  the open-end matrix and the radius appended.  The error comes with that assembly.
\<close>

definition append_tube ::
  "TubeAssembly \<Rightarrow> int \<Rightarrow> real \<Rightarrow> real \<Rightarrow> (error \<times> TubeAssembly) + TubeAssembly" where
  "append_tube a dly radius losses =
     (case Tube_init dly losses of
        Inl e \<Rightarrow> Inl (e, a)
      | Inr t \<Rightarrow>
          (let a1 = a\<lparr>tubes := tubes a @ [t], scats := scats a @ [open_end],
                      radii := radii a @ [radius]\<rparr>
           in case connect_tubes a1 (- 1) of
                Inl e \<Rightarrow> Inl (e, a1)
              | Inr a2 \<Rightarrow> Inr a2))"

text \<open>The result is the pair (outgoing to the right, incoming to the left).\<close>

definition scatter :: "TubeAssembly \<Rightarrow> int \<Rightarrow> real \<Rightarrow> real \<Rightarrow> error + (real \<times> real)" where
  "scatter a index outgoing_val incoming_val =
     (case py_get (scats a) index of
        Inl e \<Rightarrow> Inl e
      | Inr scat \<Rightarrow>
          (let plout_refl = outgoing_val * m10 scat;
               plout_trans = outgoing_val * m00 scat;
               prin_trans = incoming_val * m11 scat;
               prin_refl = incoming_val * m01 scat
           in Inr (prin_refl + plout_trans, prin_trans + plout_refl)))"

text \<open>
  The loop of \<open>insert_values\<close> over the indices of all tubes but the last; the value
  carried from one junction to the next is \<open>prev_prout\<close>.
\<close>

fun insert_values_loop ::
  "nat list \<Rightarrow> TubeAssembly \<Rightarrow> real \<Rightarrow> error + (TubeAssembly \<times> real)" where
  "insert_values_loop [] a prev_prout = Inr (a, prev_prout)"
| "insert_values_loop (ii # rest) a prev_prout =
     (case py_get (tubes a) (int ii) of
        Inl e \<Rightarrow> Inl e
      | Inr tube_l \<Rightarrow>
     (case read_outgoing tube_l of
        Inl e \<Rightarrow> Inl e
      | Inr plout \<Rightarrow>
     (case py_get (tubes a) (int ii + 1) of
        Inl e \<Rightarrow> Inl e
      | Inr tube_r \<Rightarrow>
     (case read_incoming tube_r of
        Inl e \<Rightarrow> Inl e
      | Inr prin \<Rightarrow>
     (case scatter a (int ii) plout prin of
        Inl e \<Rightarrow> Inl e
      | Inr (prout, plin) \<Rightarrow>
     (case insert_incoming_sample tube_l plin of
        Inl e \<Rightarrow> Inl e
      | Inr t1 \<Rightarrow>
     (case insert_outgoing_sample t1 prev_prout of
        Inl e \<Rightarrow> Inl e
      | Inr t2 \<Rightarrow>
          insert_values_loop rest (a\<lparr>tubes := (tubes a)[ii := t2]\<rparr>) prout)))))))"

definition insert_values ::
  "TubeAssembly \<Rightarrow> real \<Rightarrow> real \<Rightarrow> error + (TubeAssembly \<times> real)" where
  "insert_values a val ret_val =
     (case insert_values_loop [0..<length (py_slice_to (tubes a) (- 1))] a val of
        Inl e \<Rightarrow> Inl e
      | Inr (a1, prev_prout) \<Rightarrow>
     (case py_get (tubes a1) (- 1) of
        Inl e \<Rightarrow> Inl e
      | Inr tube_l \<Rightarrow>
     (case read_outgoing tube_l of
        Inl e \<Rightarrow> Inl e
      | Inr plout \<Rightarrow>
     (case scatter a1 (int (length (scats a1)) - 1) plout ret_val of
        Inl e \<Rightarrow> Inl e
      | Inr (prout, plin) \<Rightarrow>
     (case insert_incoming_sample tube_l plin of
        Inl e \<Rightarrow> Inl e
      | Inr t1 \<Rightarrow>
     (case insert_outgoing_sample t1 prev_prout of
        Inl e \<Rightarrow> Inl e
      | Inr t2 \<Rightarrow>
          Inr (a1\<lparr>tubes := (tubes a1)[length (tubes a1) - 1 := t2]\<rparr>, prout)))))))"

definition get_incoming_pressure_at_start :: "TubeAssembly \<Rightarrow> error + real" where
  "get_incoming_pressure_at_start a =
     (case py_get (tubes a) 0 of Inl e \<Rightarrow> Inl e | Inr t \<Rightarrow> read_incoming_at_pos t 0)"

text \<open>
  The loop of \<open>get_tube_at_pos\<close>; falling off the end of the loop returns \<^verbatim>\<open>None\<close>.
\<close>

fun get_tube_at_pos_loop :: "Tube list \<Rightarrow> int \<Rightarrow> int \<Rightarrow> (Tube \<times> int) option" where
  "get_tube_at_pos_loop [] pos index = None"
| "get_tube_at_pos_loop (tt # rest) pos index =
     (let prev_pos = pos; pos1 = pos + delay tt
      in if pos1 \<ge> index then Some (tt, index - prev_pos)
         else get_tube_at_pos_loop rest pos1 index)"

definition get_tube_at_pos :: "TubeAssembly \<Rightarrow> int \<Rightarrow> (Tube \<times> int) option" where
  "get_tube_at_pos a index = get_tube_at_pos_loop (tubes a) 0 index"

text \<open>Unpacking \<^verbatim>\<open>None\<close> into \<^verbatim>\<open>tube, tube_pos\<close> raises a \<^verbatim>\<open>TypeError\<close>.\<close>

definition assembly_get_sum_at_pos :: "TubeAssembly \<Rightarrow> int \<Rightarrow> error + real" where
  "assembly_get_sum_at_pos a index =
     (case get_tube_at_pos a index of
        None \<Rightarrow> Inl TypeError
      | Some (tube, tube_pos) \<Rightarrow> get_sum_at_pos tube tube_pos)"

subsection \<open>Sequences of calls\<close>

text \<open>
  An assembly built by \<open>append_tube\<close> calls, one per triple (delay, radius, losses), and a
  run of \<open>insert_values\<close> calls with the default \<^verbatim>\<open>ret_val = 0.0\<close>.  The run returns the
  final assembly, and for each tick the value returned by \<open>insert_values\<close> paired with the
  reading of \<open>get_incoming_pressure_at_start\<close> taken right after it.
\<close>

fun append_tubes ::
  "TubeAssembly \<Rightarrow> (int \<times> real \<times> real) list \<Rightarrow> (error \<times> TubeAssembly) + TubeAssembly" where
  "append_tubes a [] = Inr a"
| "append_tubes a ((dly, radius, losses) # rest) =
     (case append_tube a dly radius losses of
        Inl ea \<Rightarrow> Inl ea
      | Inr a1 \<Rightarrow> append_tubes a1 rest)"

fun run_values ::
  "TubeAssembly \<Rightarrow> real list \<Rightarrow> error + (TubeAssembly \<times> (real \<times> real) list)" where
  "run_values a [] = Inr (a, [])"
| "run_values a (v # vs) =
     (case insert_values a v 0 of
        Inl e \<Rightarrow> Inl e
      | Inr (a1, prout) \<Rightarrow>
     (case get_incoming_pressure_at_start a1 of
        Inl e \<Rightarrow> Inl e
      | Inr p \<Rightarrow>
     (case run_values a1 vs of
        Inl e \<Rightarrow> Inl e
      | Inr (a2, outs) \<Rightarrow> Inr (a2, (prout, p) # outs))))"

definition tube_wf :: "Tube \<Rightarrow> bool" where
  "tube_wf t \<longleftrightarrow>
     dl_wf (dlin t) \<and> dl_wf (dlout t) \<and>
     DelayLine.delay (dlin t) = delay t \<and> DelayLine.delay (dlout t) = delay t \<and>
     n_samp (dlin t) = delay t + 5 \<and> n_samp (dlout t) = delay t + 5"

text \<open>A tube right after construction, and after feeding its two lines.\<close>

definition run_tube :: "int \<Rightarrow> real \<Rightarrow> real list \<Rightarrow> real list \<Rightarrow> error + Tube" where
  "run_tube dly losses ins outs =
     (case Tube_init dly losses of
        Inl e \<Rightarrow> Inl e
      | Inr t \<Rightarrow>
     (case insert_samples (dlin t) ins of
        Inl e \<Rightarrow> Inl e
      | Inr li \<Rightarrow>
     (case insert_samples (dlout t) outs of
        Inl e \<Rightarrow> Inl e
      | Inr lo \<Rightarrow> Inr (t\<lparr>dlin := li, dlout := lo\<rparr>))))"

definition sum_distribution_after ::
  "int \<Rightarrow> real \<Rightarrow> real list \<Rightarrow> real list \<Rightarrow> error + real list" where
  "sum_distribution_after dly losses ins outs =
     (case run_tube dly losses ins outs of Inl e \<Rightarrow> Inl e | Inr t \<Rightarrow> get_sum_distribution t)"

text \<open>
  Radii between \<open>2 ^ - 500\<close> and \<open>2 ^ 500\<close> in magnitude: their squares and the
  reciprocals of the squares are well inside the range of the floats.
\<close>

definition radius_in_range :: "real \<Rightarrow> bool" where
  "radius_in_range r \<longleftrightarrow> 1 / 2 ^ 500 \<le> \<bar>r\<bar> \<and> \<bar>r\<bar> \<le> 2 ^ 500"

definition junctions_ok :: "TubeAssembly \<Rightarrow> bool" where
  "junctions_ok a \<longleftrightarrow>
     length (scats a) = length (tubes a) \<and> length (radii a) = length (tubes a) \<and>
     (\<forall>j. Suc j < length (tubes a) \<longrightarrow>
        scats a ! j = newscat (radii a ! j) (radii a ! Suc j)) \<and>
     (tubes a \<noteq> [] \<longrightarrow> scats a ! (length (tubes a) - 1) = open_end)"

text \<open>The position at which tube \<open>j\<close> starts: the sum of the delays of the tubes before it.\<close>

definition cum_delay :: "Tube list \<Rightarrow> nat \<Rightarrow> int" where
  "cum_delay ts j = sum_list (map delay (take j ts))"

subsection \<open>Invariants of a tube and of an assembly\<close>

text \<open>A tube holds the histories \<open>ins\<close> and \<open>outs\<close> when its two lines do.\<close>

definition tube_holds :: "Tube \<Rightarrow> real list \<Rightarrow> real list \<Rightarrow> bool" where
  "tube_holds t ins outs \<longleftrightarrow>
     tube_wf t \<and> 0 \<le> delay t \<and> dl_holds (dlin t) ins \<and> dl_holds (dlout t) outs"

text \<open>
  The whole scenario: build the assembly, feed the values, and keep what each tick
  returned (\<open>radiated\<close>) and what was then read at the input (\<open>input_pressures\<close>).
\<close>

definition simulate :: "(int \<times> real \<times> real) list \<Rightarrow> real list \<Rightarrow> error + (real \<times> real) list" where
  "simulate cfg vs =
     (case append_tubes TubeAssembly_init cfg of
        Inl (e, a) \<Rightarrow> Inl e
      | Inr a \<Rightarrow> (case run_values a vs of Inl e \<Rightarrow> Inl e | Inr (a1, outs) \<Rightarrow> Inr outs))"

definition radiated :: "(int \<times> real \<times> real) list \<Rightarrow> real list \<Rightarrow> error + real list" where
  "radiated cfg vs = map_sum id (map fst) (simulate cfg vs)"

definition input_pressures :: "(int \<times> real \<times> real) list \<Rightarrow> real list \<Rightarrow> error + real list" where
  "input_pressures cfg vs = map_sum id (map snd) (simulate cfg vs)"

text \<open>
  What the terminal junction wrote last into the incoming line of the last tube, read
  with \<^verbatim>\<open>tubes[-1].read_incoming_at_pos(tubes[-1].delay)\<close>; and that reading at the end
  of the whole scenario.
\<close>

definition get_reflected_pressure_at_end :: "TubeAssembly \<Rightarrow> error + real" where
  "get_reflected_pressure_at_end a =
     (case py_get (tubes a) (- 1) of
        Inl e \<Rightarrow> Inl e
      | Inr t \<Rightarrow> read_incoming_at_pos t (delay t))"

definition reflected_at_end :: "(int \<times> real \<times> real) list \<Rightarrow> real list \<Rightarrow> error + real" where
  "reflected_at_end cfg vs =
     (case append_tubes TubeAssembly_init cfg of
        Inl (e, a) \<Rightarrow> Inl e
      | Inr a \<Rightarrow>
     (case run_values a vs of
        Inl e \<Rightarrow> Inl e
      | Inr (a1, outs) \<Rightarrow> get_reflected_pressure_at_end a1))"

text \<open>
  The offset at which \<open>read_outgoing\<close> reads a line of the given delay, after the
  reduction modulo the capacity \<open>delay + 5\<close>, and the number of ticks after which a value
  inserted into a single tube is read back at its input.
\<close>

definition exit_offset :: "int \<Rightarrow> int" where
  "exit_offset d = (d - 2) mod (d + 5)"

definition round_trip :: "int \<Rightarrow> int" where
  "round_trip d = d + exit_offset d + 2"

text \<open>
  A single lossless tube of delay \<open>d\<close> that was fed \<open>outs\<close>: its incoming line holds the
  reflected history.
\<close>

definition single_inv :: "int \<Rightarrow> TubeAssembly \<Rightarrow> real list \<Rightarrow> bool" where
  "single_inv d a outs \<longleftrightarrow>
     (\<exists>t ins. tubes a = [t] \<and> scats a = [open_end] \<and> tube_holds t ins outs \<and>
        delay t = d \<and> prop_mult t = 1 \<and> smpl_prop_mult t = 1 \<and>
        (\<forall>k. 0 \<le> k \<longrightarrow> sample_ago ins k = - sample_ago outs (k + exit_offset d + 1)))"

subsection \<open>Invariant of a lossless assembly with transparent junctions\<close>

text \<open>
  A tube passes a sample from its entry to the junction at its exit in \<open>transit\<close> ticks.
  In an assembly of tubes of delays \<open>ds\<close>, a sample fed at the input enters tube \<open>j\<close>
  after \<open>arrival ds j\<close> ticks and is reflected at the open end after
  \<open>arrival ds (length ds)\<close> ticks; the reflected sample enters tube \<open>j\<close> from the right
  after \<open>way_back ds j\<close> ticks.
\<close>

definition transit :: "int \<Rightarrow> int" where
  "transit d = exit_offset d + 1"

definition arrival :: "int list \<Rightarrow> nat \<Rightarrow> int" where
  "arrival ds j = sum_list (map transit (take j ds))"

definition way_back :: "int list \<Rightarrow> nat \<Rightarrow> int" where
  "way_back ds j = 2 * arrival ds (length ds) - arrival ds (Suc j)"

text \<open>
  A lossless tube of delay \<open>d\<close> carries the input history \<open>h\<close> with the offsets \<open>ko\<close>
  and \<open>ki\<close> when its outgoing line holds \<open>h\<close> delayed by \<open>ko\<close> ticks and its incoming
  line holds \<open>h\<close> delayed by \<open>ki\<close> ticks and sign-inverted.
\<close>

definition tube_carries :: "Tube \<Rightarrow> int \<Rightarrow> real list \<Rightarrow> int \<Rightarrow> int \<Rightarrow> bool" where
  "tube_carries t d h ko ki \<longleftrightarrow>
     (\<exists>ins outs. tube_holds t ins outs \<and> delay t = d \<and>
        prop_mult t = 1 \<and> smpl_prop_mult t = 1 \<and>
        (\<forall>k. 0 \<le> k \<longrightarrow> sample_ago outs k = sample_ago h (k + ko)) \<and>
        (\<forall>k. 0 \<le> k \<longrightarrow> sample_ago ins k = - sample_ago h (k + ki)))"

text \<open>
  In the middle of a tick the tubes before index \<open>i\<close> carry the new history \<open>h1\<close> and the
  others still carry \<open>h0\<close>.  The junctions are transparent when all of them are the
  identity matrix but the last, which is the open end.
\<close>

definition carried :: "int list \<Rightarrow> Tube list \<Rightarrow> nat \<Rightarrow> real list \<Rightarrow> real list \<Rightarrow> bool" where
  "carried ds ts i h1 h0 \<longleftrightarrow>
     length ts = length ds \<and>
     (\<forall>j<length ds.
        tube_carries (ts ! j) (ds ! j) (if j < i then h1 else h0) (arrival ds j) (way_back ds j))"

definition transparent :: "int list \<Rightarrow> scat_matrix list \<Rightarrow> bool" where
  "transparent ds ms \<longleftrightarrow>
     ds \<noteq> [] \<and> length ms = length ds \<and>
     (\<forall>j. Suc j < length ds \<longrightarrow> ms ! j = ((1, 0), (0, 1))) \<and>
     ms ! (length ds - 1) = open_end"

text \<open>A tube as the constructor leaves it, without loss.\<close>

definition fresh :: "Tube \<Rightarrow> bool" where
  "fresh t \<longleftrightarrow> tube_holds t [] [] \<and> prop_mult t = 1 \<and> smpl_prop_mult t = 1"

section \<open>Properties of the delay line\<close>

lemma sample_ago_Nil: "sample_ago [] k = 0"
  by (simp add: sample_ago_def)

lemma sample_ago_snoc_0: "sample_ago (xs @ [x]) 0 = x"
  by (simp add: sample_ago_def)

lemma sample_ago_snoc_pos: "0 < k \<Longrightarrow> sample_ago (xs @ [x]) k = sample_ago xs (k - 1)"
  by (auto simp: sample_ago_def nth_Cons' nat_diff_distrib' )

lemma DelayLine_init_ok:
  assumes "0 < dly + ext"
  shows "\<exists>dl. DelayLine_init dly ext = Inr dl \<and> dl_holds dl [] \<and> DelayLine.delay dl = dly
           \<and> n_samp dl = dly + ext"
  using assms
  by (auto simp: DelayLine_init_def np_zeros_def dl_holds_def dl_wf_def sample_ago_Nil Let_def)

lemma increase_ptr_mod:
  assumes "dl_wf dl"
  shows "ptr (increase_ptr dl) = (ptr dl + 1) mod n_samp dl"
proof (cases "ptr dl + 1 < n_samp dl")
  case True
  with assms show ?thesis by (simp add: increase_ptr_def dl_wf_def Let_def)
next
  case False
  with assms have "ptr dl + 1 = n_samp dl" by (simp add: dl_wf_def)
  with assms show ?thesis by (simp add: increase_ptr_def dl_wf_def Let_def)
qed

lemma insert_sample_ok:
  assumes "dl_holds dl xs"
  shows "\<exists>dl1. insert_sample dl x = Inr dl1 \<and> dl_holds dl1 (xs @ [x]) \<and>
           DelayLine.delay dl1 = DelayLine.delay dl \<and> n_samp dl1 = n_samp dl"
proof -
  let ?n = "n_samp dl"
  let ?q = "(ptr dl + 1) mod ?n"
  from assms have wf: "dl_wf dl" by (simp add: dl_holds_def)
  then have n: "0 < ?n" and len: "int (length (line dl)) = ?n" by (simp_all add: dl_wf_def)
  have q: "ptr (increase_ptr dl) = ?q" by (rule increase_ptr_mod [OF wf])
  have qr: "0 \<le> ?q" "?q < ?n"
    using pos_mod_sign [OF n] pos_mod_bound [OF n] by blast+
  let ?dl1 = "(increase_ptr dl)\<lparr>line := (line dl)[nat ?q := x]\<rparr>"
  have line1: "line (increase_ptr dl) = line dl" and ns1: "n_samp (increase_ptr dl) = ?n"
    and d1: "DelayLine.delay (increase_ptr dl) = DelayLine.delay dl"
    by (simp_all add: increase_ptr_def Let_def)
  have ins: "insert_sample dl x = Inr ?dl1"
    using qr len by (simp add: insert_sample_def Let_def py_set_def py_index_def q line1)
  have wf1: "dl_wf ?dl1" using qr len n by (simp add: dl_wf_def q ns1 line1)
  have hist: "line ?dl1 ! nat ((ptr ?dl1 - k) mod n_samp ?dl1) = sample_ago (xs @ [x]) k"
    if k: "0 \<le> k" "k < ?n" for k
  proof (cases "k = 0")
    case True
    then show ?thesis using qr len by (simp add: q ns1 line1 sample_ago_snoc_0)
  next
    case False
    with k have kpos: "0 < k" by simp
    have "(?q - k) mod ?n = (ptr dl + 1 - k) mod ?n" by (rule mod_diff_left_eq)
    also have "ptr dl + 1 - k = ptr dl - (k - 1)" by simp
    finally have e: "(?q - k) mod ?n = (ptr dl - (k - 1)) mod ?n" .
    have ne: "(ptr dl - (k - 1)) mod ?n \<noteq> ?q"
    proof
      assume "(ptr dl - (k - 1)) mod ?n = ?q"
      then have "(ptr dl + 1 - k) mod ?n = (ptr dl + 1) mod ?n" by (simp add: algebra_simps)
      then have "?n dvd (ptr dl + 1 - k) - (ptr dl + 1)" by (simp only: mod_eq_dvd_iff)
      then have "?n dvd - k" by simp
      then have "?n dvd k" by (simp only: dvd_minus_iff)
      with k kpos show False by (simp add: zdvd_not_zless)
    qed
    have r: "0 \<le> (ptr dl - (k - 1)) mod ?n"
      using pos_mod_sign [OF n] by blast
    have ne': "nat ((ptr dl - (k - 1)) mod ?n) \<noteq> nat ?q"
      using ne r qr by (simp only: nat_eq_iff2) auto
    from assms k kpos have old:
      "line dl ! nat ((ptr dl - (k - 1)) mod ?n) = sample_ago xs (k - 1)"
      by (simp add: dl_holds_def)
    show ?thesis using ne' old kpos by (simp add: q ns1 line1 e sample_ago_snoc_pos)
  qed
  show ?thesis using ins wf1 hist by (auto simp: dl_holds_def ns1 d1)
qed

lemma insert_samples_ok:
  "dl_holds dl xs \<Longrightarrow>
     \<exists>dl1. insert_samples dl ys = Inr dl1 \<and> dl_holds dl1 (xs @ ys) \<and>
           DelayLine.delay dl1 = DelayLine.delay dl \<and> n_samp dl1 = n_samp dl"
proof (induction ys arbitrary: dl xs)
  case Nil
  then show ?case by simp
next
  case (Cons y ys)
  from insert_sample_ok [OF Cons.prems, of y] obtain dl1 where
    1: "insert_sample dl y = Inr dl1" "dl_holds dl1 (xs @ [y])"
       "DelayLine.delay dl1 = DelayLine.delay dl" "n_samp dl1 = n_samp dl" by blast
  from Cons.IH [OF 1(2)] 1 show ?case by auto
qed

lemma read_delay_holds:
  assumes "dl_holds dl xs"
  shows "read_delay dl (Some k) = Inr (sample_ago xs (k mod n_samp dl))"
proof -
  let ?n = "n_samp dl"
  let ?j = "(ptr dl - k) mod ?n"
  from assms have n: "0 < ?n" and len: "int (length (line dl)) = ?n"
    by (simp_all add: dl_holds_def dl_wf_def)
  have r: "0 \<le> ?j" "?j < ?n"
    using pos_mod_sign [OF n] pos_mod_bound [OF n] by blast+
  have km: "0 \<le> k mod ?n" "k mod ?n < ?n"
    using pos_mod_sign [OF n] pos_mod_bound [OF n] by blast+
  have "?j = (ptr dl - k mod ?n) mod ?n" by (simp add: mod_diff_right_eq)
  with assms km have v: "line dl ! nat ?j = sample_ago xs (k mod ?n)"
    by (simp add: dl_holds_def)
  have "py_get (line dl) ?j = Inr (line dl ! nat ?j)"
    unfolding py_get_def py_index_def len using r by simp
  with v n show ?thesis by (simp add: read_delay_def)
qed

lemma mod_flip:
  fixes a n :: int
  assumes "0 < n"
  shows "n - 1 - (- a - 1) mod n = a mod n"
proof -
  let ?m = "(- a - 1) mod n"
  let ?q = "(- a - 1) div n"
  have "- a - 1 = n * ?q + ?m" by simp
  then have 1: "a = n * (- ?q - 1) + (n - 1 - ?m)" by (simp add: algebra_simps)
  have 2: "0 \<le> n - 1 - ?m" "n - 1 - ?m < n"
    using assms pos_mod_bound [of n "- a - 1"] pos_mod_sign [of n "- a - 1"] by linarith+
  show ?thesis using int_mod_pos_eq [OF 1 2] by simp
qed

lemma py_get_in_range:
  "0 \<le> i \<Longrightarrow> i < int (length xs) \<Longrightarrow> py_get xs i = Inr (xs ! nat i)"
  by (simp add: py_get_def py_index_def)

lemma np_roll_nth:
  "k < length xs \<Longrightarrow> np_roll xs s ! k = xs ! nat ((int k - s) mod int (length xs))"
  by (simp add: np_roll_def Let_def)

lemma length_np_roll: "length (np_roll xs s) = length xs"
  by (simp add: np_roll_def Let_def)

lemma dump_line_nth:
  assumes wf: "dl_wf dl" and k: "0 \<le> k" "k < DelayLine.delay dl" and d: "DelayLine.delay dl \<le> n_samp dl"
  shows "py_get (dump_line dl) k = Inr (line dl ! nat ((ptr dl - k) mod n_samp dl))"
    and "length (dump_line dl) = nat (DelayLine.delay dl)"
proof -
  let ?n = "n_samp dl"
  let ?m = "(k - (ptr dl + 1)) mod ?n"
  from wf have n: "0 < ?n" and len: "int (length (line dl)) = ?n" by (simp_all add: dl_wf_def)
  have lenn: "length (line dl) = nat ?n" using len by simp
  have dump: "dump_line dl = take (nat (DelayLine.delay dl)) (np_roll (rev (line dl)) (ptr dl + 1))"
    using k by (simp add: dump_line_def py_slice_to_def np_flipud_def)
  show L: "length (dump_line dl) = nat (DelayLine.delay dl)"
    using d k by (simp add: dump length_np_roll lenn)
  have kn: "nat k < length (line dl)" using k d lenn by simp
  have m: "0 \<le> ?m" "?m < ?n" using pos_mod_sign [OF n] pos_mod_bound [OF n] by blast+
  have mn: "nat ?m < length (line dl)" using m lenn by simp
  have "dump_line dl ! nat k = np_roll (rev (line dl)) (ptr dl + 1) ! nat k"
    using k by (simp add: dump)
  also have "\<dots> = rev (line dl) ! nat ?m"
    using kn k by (simp add: np_roll_nth len)
  also have "\<dots> = line dl ! (length (line dl) - Suc (nat ?m))"
    using mn by (rule rev_nth)
  also have "length (line dl) - Suc (nat ?m) = nat (?n - 1 - ?m)"
    using m lenn by simp
  also have "?n - 1 - ?m = (ptr dl - k) mod ?n"
    using mod_flip [OF n, of "ptr dl - k"] by (simp add: algebra_simps)
  finally have "dump_line dl ! nat k = line dl ! nat ((ptr dl - k) mod ?n)" .
  then show "py_get (dump_line dl) k = Inr (line dl ! nat ((ptr dl - k) mod ?n))"
    using py_get_in_range [of k "dump_line dl"] k L by simp
qed

lemma run_delay_line_ok:
  assumes "0 < dly + ext"
  shows "\<exists>dl. run_delay_line dly ext xs = Inr dl \<and> dl_holds dl xs \<and> DelayLine.delay dl = dly
           \<and> n_samp dl = dly + ext"
proof -
  from DelayLine_init_ok [OF assms] obtain dl0 where
    0: "DelayLine_init dly ext = Inr dl0" "dl_holds dl0 []" "DelayLine.delay dl0 = dly"
       "n_samp dl0 = dly + ext" by blast
  from insert_samples_ok [OF 0(2), of xs] 0 show ?thesis
    by (auto simp: run_delay_line_def)
qed

lemma read_after_mod:
  assumes "0 < dly + ext"
  shows "read_after dly ext xs k = Inr (sample_ago xs (k mod (dly + ext)))"
proof -
  from run_delay_line_ok [OF assms, of xs] obtain dl where
    dl: "run_delay_line dly ext xs = Inr dl" "dl_holds dl xs" "n_samp dl = dly + ext"
    by blast
  show ?thesis using read_delay_holds [OF dl(2), of k] dl by (simp add: read_after_def)
qed

subsection \<open>Delay correctness\<close>

text \<open>
  Claim C5.  For a line of capacity \<open>n = dly + ext\<close> and any sequence \<open>xs\<close> of
  inserted samples, however long, \<open>read_delay k\<close> with \<open>0 \<le> k < n\<close> returns the
  sample inserted \<open>k\<close> ticks earlier, or the initial zero when fewer than \<open>k + 1\<close>
  samples were inserted; and \<open>read_delay 0\<close> returns the sample inserted last.
\<close>

theorem delay_correctness:
  assumes "0 < dly + ext" and "0 \<le> k" and "k < dly + ext"
  shows "read_after dly ext xs k = Inr (sample_ago xs k) \<and>
         read_after dly ext (xs @ [x]) 0 = Inr x"
proof
  show "read_after dly ext xs k = Inr (sample_ago xs k)"
    using read_after_mod [OF assms(1), of xs k] assms by simp
  show "read_after dly ext (xs @ [x]) 0 = Inr x"
    using read_after_mod [OF assms(1), of "xs @ [x]" 0] by (simp add: sample_ago_snoc_0)
qed

theorem delay_correctness_witness:
  "(0::int) < 3 + 1 \<and> (0::int) \<le> 2 \<and> (2::int) < 3 + 1 \<and>
   read_after 3 1 [1, 2, 3, 4, 5, 6] 2 = Inr 4 \<and>
   read_after 3 1 ([1, 2, 3, 4, 5, 6] @ [7]) 0 = Inr 7"
  using delay_correctness [of 3 1 2 "[1, 2, 3, 4, 5, 6]" 7]
  by (simp add: sample_ago_def)

subsection \<open>Dump consistency\<close>

text \<open>
  Claim C6.  In every state reached from a fresh line (with a non-negative number of extra
  samples) by inserting samples, entry \<open>k\<close> of \<open>dump_line\<close> is what
  \<open>read_delay k\<close> returns, for every \<open>0 \<le> k < delay\<close>: the sample inserted
  \<open>k\<close> ticks ago, most recent first.  The dump has \<open>delay\<close> entries and is computed
  from the state without changing it.
\<close>

theorem dump_consistency:
  assumes "0 \<le> ext" and "0 \<le> k" and "k < dly"
  shows "\<exists>dl. run_delay_line dly ext xs = Inr dl \<and>
           py_get (dump_line dl) k = read_delay dl (Some k) \<and>
           read_delay dl (Some k) = Inr (sample_ago xs k) \<and>
           length (dump_line dl) = nat dly"
proof -
  from assms have n: "0 < dly + ext" by simp
  from run_delay_line_ok [OF n, of xs] obtain dl where
    dl: "run_delay_line dly ext xs = Inr dl" "dl_holds dl xs" "DelayLine.delay dl = dly"
        "n_samp dl = dly + ext"
    by blast
  from dl(2) have wf: "dl_wf dl" by (simp add: dl_holds_def)
  have k: "0 \<le> k" "k < DelayLine.delay dl" "DelayLine.delay dl \<le> n_samp dl" using assms dl by simp_all
  have r: "read_delay dl (Some k) = Inr (sample_ago xs k)"
    using read_delay_holds [OF dl(2), of k] assms dl by simp
  from dl(2) k have "line dl ! nat ((ptr dl - k) mod n_samp dl) = sample_ago xs k"
    by (simp add: dl_holds_def)
  with dump_line_nth [OF wf k] r dl show ?thesis by simp
qed

theorem dump_consistency_witness:
  "(0::int) \<le> 1 \<and> (0::int) \<le> 1 \<and> (1::int) < 3 \<and>
   (\<exists>dl. run_delay_line 3 1 [1, 2, 3, 4, 5] = Inr dl \<and>
      py_get (dump_line dl) 1 = read_delay dl (Some 1) \<and>
      read_delay dl (Some 1) = Inr 4 \<and> length (dump_line dl) = 3)"
  using dump_consistency [of 1 1 3 "[1, 2, 3, 4, 5]"]
  by (simp add: sample_ago_def)

subsection \<open>Reads beyond the capacity\<close>

text \<open>
  Claim C8 says that a read at an offset of at least the capacity fails loudly.
  \<open>read_delay\<close> has no bounds check: the index is reduced modulo the capacity.  On a
  line of capacity 4 that received 1, 2, 3, 4, 5, the read at offset 4 returns 5, the
  sample at offset 0.
\<close>

theorem out_of_range_read_counterexample:
  "read_after 3 1 [1, 2, 3, 4, 5] 4 = Inr 5"
  by (simp add: read_after_def run_delay_line_def DelayLine_init_def np_zeros_def
      insert_sample_def increase_ptr_def py_set_def read_delay_def py_get_def py_index_def
      Let_def)

text \<open>
  Claim C8, amended.  On a line of capacity \<open>n \<ge> 1\<close>, \<open>read_delay\<close> returns a
  stored sample for every integer offset \<open>k\<close> and never raises: the result is the one
  of the read at offset \<open>k mod n\<close>.
\<close>

theorem read_delay_wraps:
  assumes "0 < dly + ext"
  shows "read_after dly ext xs k = read_after dly ext xs (k mod (dly + ext)) \<and>
         (\<exists>v. read_after dly ext xs k = Inr v)"
  using read_after_mod [OF assms, of xs k] read_after_mod [OF assms, of xs "k mod (dly + ext)"]
  by simp

theorem read_delay_wraps_witness:
  "(0::int) < 3 + 1 \<and>
   read_after 3 1 [1, 2, 3, 4, 5] 9 = read_after 3 1 [1, 2, 3, 4, 5] (9 mod (3 + 1)) \<and>
   (\<exists>v. read_after 3 1 [1, 2, 3, 4, 5] 9 = Inr v)"
proof -
  have h: "(0::int) < 3 + 1" by simp
  from read_delay_wraps [OF h, of "[1, 2, 3, 4, 5]" 9] h show ?thesis by blast
qed

section \<open>Properties of the float range\<close>

lemma float_range_moderate:
  assumes "1 / 2 ^ 1000 \<le> \<bar>x\<bar>" and "\<bar>x\<bar> \<le> 2 ^ 1000"
  shows "\<not> float_overflows x" and "\<not> float_underflows x"
proof -
  have "(2::real) ^ 1000 < 2 ^ 1024 - 2 ^ 970" by simp
  with assms(2) show "\<not> float_overflows x" by (simp add: float_overflows_def)
  have "(1::real) / 2 ^ 1075 < 1 / 2 ^ 1000" by simp
  with assms(1) show "\<not> float_underflows x" by (simp add: float_underflows_def)
qed

lemma py_pow_exact:
  assumes "b \<noteq> 0 \<or> 0 \<le> e"
    and "p = (if 0 \<le> e then b ^ nat e else 1 / b ^ nat (- e))"
    and "1 / 2 ^ 1000 \<le> \<bar>p\<bar>" and "\<bar>p\<bar> \<le> 2 ^ 1000"
  shows "py_pow b e = Inr p"
  using assms(1) float_range_moderate [OF assms(3,4)]
  unfolding py_pow_def Let_def assms(2) [symmetric] by auto

lemma py_pow_one: "py_pow 1 e = Inr 1"
  by (rule py_pow_exact) simp_all

lemma py_pow_minus_one_cubed: "py_pow (- 1) 3 = Inr (- 1)"
  by (rule py_pow_exact) simp_all

lemma square_in_range:
  assumes "radius_in_range r"
  shows "1 / 2 ^ 1000 \<le> \<bar>r ^ 2\<bar>" and "\<bar>r ^ 2\<bar> \<le> 2 ^ 1000"
proof -
  from assms have lo: "1 / 2 ^ 500 \<le> \<bar>r\<bar>" and hi: "\<bar>r\<bar> \<le> 2 ^ 500"
    by (simp_all add: radius_in_range_def)
  have "(1 / 2 ^ 500) ^ 2 \<le> \<bar>r\<bar> ^ 2" by (rule power_mono [OF lo]) simp
  then show "1 / 2 ^ 1000 \<le> \<bar>r ^ 2\<bar>" by (simp add: power_divide power_abs)
  have "\<bar>r\<bar> ^ 2 \<le> (2 ^ 500) ^ 2" by (rule power_mono [OF hi]) simp
  then show "\<bar>r ^ 2\<bar> \<le> 2 ^ 1000" by (simp add: power_abs)
qed

lemma inv_square_in_range:
  assumes "radius_in_range r"
  shows "inv_square r = Inr (1 / r ^ 2)"
proof -
  have "py_pow r 2 = Inr (r ^ 2)"
    by (rule py_pow_exact) (use square_in_range [OF assms] in simp_all)
  moreover from assms have "r \<noteq> 0" by (auto simp: radius_in_range_def)
  ultimately show ?thesis by (simp add: inv_square_def)
qed

text \<open>A factor that could be computed is the exact one, of a radius that is not zero.\<close>

lemma inv_square_result:
  assumes "inv_square r = Inr s"
  shows "s = 1 / r ^ 2 \<and> r \<noteq> 0"
  using assms
  by (auto simp: inv_square_def py_pow_def Let_def split: if_splits)

lemma inv_square_zero: "inv_square 0 = Inl ZeroDivisionError"
  by (simp add: inv_square_def py_pow_def float_overflows_def float_underflows_def)

text \<open>The two ways out of the range: a power that overflows, a square that underflows.\<close>

lemma py_pow_overflow: "py_pow (1 - (- 9)) 400 = Inl OverflowError"
proof -
  have "(2::real) ^ 1024 \<le> 10 ^ 400"
  proof -
    have "(2::real) ^ 1024 \<le> (2 ^ 3) ^ 400" by (simp only: power_mult [symmetric]) simp
    also have "\<dots> \<le> 10 ^ 400" by (rule power_mono) simp_all
    finally show ?thesis .
  qed
  then have "float_overflows (10 ^ 400)" by (simp add: float_overflows_def)
  then show ?thesis by (simp add: py_pow_def)
qed

lemma inv_square_underflow: "inv_square (1 / 2 ^ 600) = Inl ZeroDivisionError"
proof -
  have "(1::real) / 2 ^ 1200 \<le> 1 / 2 ^ 1075" by simp
  then have "float_underflows ((1 / 2 ^ 600) ^ 2)"
    by (simp add: float_underflows_def power_divide)
  moreover have "\<not> float_overflows ((1 / 2 ^ 600 :: real) ^ 2)"
    by (simp add: float_overflows_def power_divide)
  ultimately show ?thesis by (simp add: inv_square_def py_pow_def)
qed

lemma small_radii_in_range:
  "radius_in_range 1" "radius_in_range 2" "radius_in_range 3" "radius_in_range (- 1)"
  by (simp_all add: radius_in_range_def)

lemma pow_bounds:
  fixes b :: real
  assumes "1 / 2 \<le> \<bar>b\<bar>" and "\<bar>b\<bar> \<le> 2" and "n \<le> 1000"
  shows "1 / 2 ^ 1000 \<le> \<bar>b ^ n\<bar>" and "\<bar>b ^ n\<bar> \<le> 2 ^ 1000"
    and "1 / 2 ^ 1000 \<le> \<bar>1 / b ^ n\<bar>" and "\<bar>1 / b ^ n\<bar> \<le> 2 ^ 1000"
proof -
  have up: "\<bar>b\<bar> ^ n \<le> 2 ^ 1000"
  proof -
    have "\<bar>b\<bar> ^ n \<le> 2 ^ n" by (rule power_mono [OF assms(2)]) simp
    also have "(2::real) ^ n \<le> 2 ^ 1000" using assms(3) by (intro power_increasing) simp_all
    finally show ?thesis .
  qed
  have lo: "1 / 2 ^ 1000 \<le> \<bar>b\<bar> ^ n"
  proof -
    have "(1 / 2 :: real) ^ 1000 \<le> (1 / 2) ^ n" using assms(3) by (intro power_decreasing) simp_all
    also have "(1 / 2) ^ n \<le> \<bar>b\<bar> ^ n" by (rule power_mono [OF assms(1)]) simp
    finally show ?thesis by (simp add: power_divide)
  qed
  have pos: "0 < \<bar>b\<bar> ^ n" using assms(1) by (intro zero_less_power) simp
  show "1 / 2 ^ 1000 \<le> \<bar>b ^ n\<bar>" using lo by (simp add: power_abs)
  show "\<bar>b ^ n\<bar> \<le> 2 ^ 1000" using up by (simp add: power_abs)
  have "1 / 2 ^ 1000 \<le> 1 / \<bar>b\<bar> ^ n" using up pos by (simp add: field_simps)
  then show "1 / 2 ^ 1000 \<le> \<bar>1 / b ^ n\<bar>" by (simp add: power_abs abs_divide)
  have "1 / \<bar>b\<bar> ^ n \<le> 2 ^ 1000" using lo pos by (simp add: field_simps)
  then show "\<bar>1 / b ^ n\<bar> \<le> 2 ^ 1000" by (simp add: power_abs abs_divide)
qed

lemma py_pow_in_range:
  assumes "1 / 2 \<le> \<bar>b\<bar>" and "\<bar>b\<bar> \<le> 2" and "- 1000 \<le> e" and "e \<le> 1000"
  shows "py_pow b e = Inr (if 0 \<le> e then b ^ nat e else 1 / b ^ nat (- e))"
proof (rule py_pow_exact)
  from assms(1) show "b \<noteq> 0 \<or> 0 \<le> e" by auto
  show "(if 0 \<le> e then b ^ nat e else 1 / b ^ nat (- e))
          = (if 0 \<le> e then b ^ nat e else 1 / b ^ nat (- e))" ..
  have n: "nat e \<le> 1000" "nat (- e) \<le> 1000" using assms(3,4) by simp_all
  show "1 / 2 ^ 1000 \<le> \<bar>if 0 \<le> e then b ^ nat e else 1 / b ^ nat (- e)\<bar>"
    using pow_bounds(1) [OF assms(1,2) n(1)] pow_bounds(3) [OF assms(1,2) n(2)] by simp
  show "\<bar>if 0 \<le> e then b ^ nat e else 1 / b ^ nat (- e)\<bar> \<le> 2 ^ 1000"
    using pow_bounds(2) [OF assms(1,2) n(1)] pow_bounds(4) [OF assms(1,2) n(2)] by simp
qed

section \<open>Properties of a tube\<close>

lemma Tube_init_ok:
  assumes "0 \<le> dly" and "py_pow (1 - losses) dly = Inr pm"
  shows "\<exists>t. Tube_init dly losses = Inr t \<and> tube_wf t \<and> delay t = dly \<and>
           dl_holds (dlin t) [] \<and> dl_holds (dlout t) [] \<and>
           prop_mult t = pm \<and> smpl_prop_mult t = 1 - losses"
proof -
  from assms have n: "0 < dly + 5" by simp
  from DelayLine_init_ok [OF n] obtain dl where
    dl: "DelayLine_init dly 5 = Inr dl" "dl_holds dl []" "DelayLine.delay dl = dly"
        "n_samp dl = dly + 5" by blast
  then have "dl_wf dl" by (simp add: dl_holds_def)
  with dl assms show ?thesis
    by (simp add: Tube_init_def tube_wf_def)
qed

text \<open>A tube that was constructed: the power could be computed.\<close>

lemma Tube_init_result:
  assumes "Tube_init dly losses = Inr t"
  shows "py_pow (1 - losses) dly = Inr (prop_mult t)" and "delay t = dly"
    and "smpl_prop_mult t = 1 - losses"
  using assms by (auto simp: Tube_init_def split: sum.splits)

text \<open>A lossless tube of non-negative delay can always be constructed.\<close>

lemma Tube_init_lossless:
  assumes "0 \<le> dly"
  shows "\<exists>t. Tube_init dly 0 = Inr t \<and> tube_wf t \<and> delay t = dly \<and>
           dl_holds (dlin t) [] \<and> dl_holds (dlout t) [] \<and>
           prop_mult t = 1 \<and> smpl_prop_mult t = 1"
  using Tube_init_ok [OF assms, of 0 1] by (simp add: py_pow_one)

lemma run_tube_ok:
  assumes "0 \<le> dly" and "Tube_init dly losses = Inr t0"
  shows "\<exists>t. run_tube dly losses ins outs = Inr t \<and> tube_wf t \<and> delay t = dly \<and>
           dl_holds (dlin t) ins \<and> dl_holds (dlout t) outs \<and>
           prop_mult t = prop_mult t0 \<and> smpl_prop_mult t = 1 - losses"
proof -
  from Tube_init_ok [OF assms(1) Tube_init_result(1) [OF assms(2)]] assms(2) have
    t: "tube_wf t0" "delay t0 = dly" "dl_holds (dlin t0) []" "dl_holds (dlout t0) []"
       "smpl_prop_mult t0 = 1 - losses" by auto
  from insert_samples_ok [OF t(3), of ins] obtain li where
    li: "insert_samples (dlin t0) ins = Inr li" "dl_holds li ins"
        "DelayLine.delay li = DelayLine.delay (dlin t0)" "n_samp li = n_samp (dlin t0)"
    by auto
  from insert_samples_ok [OF t(4), of outs] obtain lo where
    lo: "insert_samples (dlout t0) outs = Inr lo" "dl_holds lo outs"
        "DelayLine.delay lo = DelayLine.delay (dlout t0)" "n_samp lo = n_samp (dlout t0)"
    by auto
  have "dl_wf li" "dl_wf lo" using li(2) lo(2) by (simp_all add: dl_holds_def)
  with t li lo assms(2) show ?thesis
    by (simp add: run_tube_def tube_wf_def)
qed

lemma length_dump_line:
  assumes "dl_wf dl" and "0 \<le> DelayLine.delay dl" and "DelayLine.delay dl \<le> n_samp dl"
  shows "length (dump_line dl) = nat (DelayLine.delay dl)"
proof -
  from assms(1) have "int (length (line dl)) = n_samp dl" by (simp add: dl_wf_def)
  then have "length (line dl) = nat (n_samp dl)" by simp
  with assms show ?thesis
    by (simp add: dump_line_def py_slice_to_def np_flipud_def length_np_roll)
qed

lemma np_mul_mismatch:
  "length xs \<noteq> length ys \<Longrightarrow> length xs \<noteq> 1 \<Longrightarrow> length ys \<noteq> 1 \<Longrightarrow> np_mul xs ys = Inl ValueError"
  by (simp add: np_mul_def np_broadcast_def)

lemma get_sum_distribution_wf:
  assumes "tube_wf t" and "2 \<le> delay t"
  shows "get_sum_distribution t = Inl ValueError"
proof -
  from assms have "length (dump_line (dlout t)) = nat (delay t)"
    using length_dump_line [of "dlout t"] by (simp add: tube_wf_def)
  moreover have "length (pmults t) = nat (delay t) + 1"
    using assms(2) by (simp add: pmults_def nat_add_distrib)
  ultimately have "np_mul (dump_line (dlout t)) (pmults t) = Inl ValueError"
    using assms(2) by (intro np_mul_mismatch) simp_all
  then show ?thesis by (simp add: get_sum_distribution_def)
qed

text \<open>
  Claim C4 says that \<open>get_sum_distribution\<close> returns \<open>delay + 1\<close> values, entry \<open>i\<close>
  being \<open>get_sum_at_pos i\<close>.  The dump of a line has \<open>delay\<close> entries and the vector
  of attenuations has \<open>delay + 1\<close>, so for every tube of delay at least 2 that the
  constructor builds, in every state, the elementwise product cannot be formed and the
  method raises instead of returning.
\<close>

theorem get_sum_distribution_raises:
  assumes "2 \<le> dly" and "Tube_init dly losses = Inr t0"
  shows "sum_distribution_after dly losses ins outs = Inl ValueError"
proof -
  from assms have "0 \<le> dly" by simp
  from run_tube_ok [OF this assms(2), of ins outs] obtain t where
    "run_tube dly losses ins outs = Inr t" "tube_wf t" "delay t = dly" by blast
  with get_sum_distribution_wf [of t] assms show ?thesis
    by (simp add: sum_distribution_after_def)
qed

theorem get_sum_distribution_raises_witness:
  "(2::int) \<le> 3 \<and> (\<exists>t0. Tube_init 3 0 = Inr t0) \<and>
   sum_distribution_after 3 0 [] [] = Inl ValueError"
proof -
  have "\<exists>t0. Tube_init 3 0 = Inr t0"
    by (simp add: Tube_init_def DelayLine_init_def np_zeros_def py_pow_one)
  then obtain t0 where t0: "Tube_init 3 0 = Inr t0" ..
  from get_sum_distribution_raises [OF _ t0, of "[]" "[]"] t0 show ?thesis by simp
qed

section \<open>Properties of the assembly: junctions\<close>

lemma py_index_in_range: "0 \<le> i \<Longrightarrow> i < int n \<Longrightarrow> py_index n i = Inr (nat i)"
  by (simp add: py_index_def)

lemma py_set_in_range:
  "0 \<le> i \<Longrightarrow> i < int (length xs) \<Longrightarrow> py_set xs i v = Inr (xs[nat i := v])"
  by (simp add: py_set_def py_index_def)

text \<open>The matrix computed from the two factors is the one of \<open>newscat\<close>.\<close>

lemma stored_matrix:
  assumes "inv_square r_right = Inr scr" and "inv_square r_left = Inr scl"
  shows "mat_div ((2 * scr, scl - scr), (scr - scl, 2 * scl)) (scr + scl)
           = newscat r_left r_right"
  using inv_square_result [OF assms(1)] inv_square_result [OF assms(2)]
  by (simp add: newscat_def Let_def)

text \<open>\<open>connect_tubes\<close> on an assembly of two tubes or more, in terms of its last two radii.\<close>

lemma connect_tubes_unfold:
  assumes len: "length (scats a) = length (tubes a)" "length (radii a) = length (tubes a)"
    and n: "2 \<le> length (tubes a)"
  shows "connect_tubes a (- 1) =
           (case inv_square (radii a ! (length (tubes a) - 1)) of
              Inl e \<Rightarrow> Inl e
            | Inr scr \<Rightarrow>
           (case inv_square (radii a ! (length (tubes a) - 2)) of
              Inl e \<Rightarrow> Inl e
            | Inr scl \<Rightarrow>
                Inr (a\<lparr>scats := (scats a)[length (tubes a) - 2 :=
                       mat_div ((2 * scr, scl - scr), (scr - scl, 2 * scl)) (scr + scl)]\<rparr>)))"
proof -
  let ?n = "length (tubes a)"
  have idx: "(if (- 1::int) < 0 then int ?n + - 1 else - 1) = int ?n - 1" by simp
  have nz: "int ?n - 1 \<noteq> 0" using n by simp
  have ne: "tubes a \<noteq> []" using n by auto
  have g1: "py_get (radii a) (int ?n - 1) = Inr (radii a ! (?n - 1))"
    using n len ne py_get_in_range [of "int ?n - 1" "radii a"] by (simp add: nat_diff_distrib')
  have e: "int ?n - 1 - 1 = int ?n - 2" by simp
  have g2: "py_get (radii a) (int ?n - 2) = Inr (radii a ! (?n - 2))"
    using n len py_get_in_range [of "int ?n - 2" "radii a"] by (simp add: nat_diff_distrib')
  have s: "py_set (scats a) (int ?n - 2) M = Inr ((scats a)[?n - 2 := M])" for M
    using n len py_set_in_range [of "int ?n - 2" "scats a" M] by (simp add: nat_diff_distrib')
  show ?thesis
    unfolding connect_tubes_def Let_def idx using nz
    by (simp add: e g1 g2 s split: sum.splits)
qed

lemma connect_tubes_last:
  assumes len: "length (scats a) = length (tubes a)" "length (radii a) = length (tubes a)"
    and n: "2 \<le> length (tubes a)"
    and r: "inv_square (radii a ! (length (tubes a) - 1)) = Inr scr"
           "inv_square (radii a ! (length (tubes a) - 2)) = Inr scl"
  shows "connect_tubes a (- 1) =
           Inr (a\<lparr>scats := (scats a)[length (tubes a) - 2 :=
                  newscat (radii a ! (length (tubes a) - 2)) (radii a ! (length (tubes a) - 1))]\<rparr>)"
  unfolding connect_tubes_unfold [OF len n] using r stored_matrix [OF r] by simp

lemma connect_tubes_result:
  assumes len: "length (scats a) = length (tubes a)" "length (radii a) = length (tubes a)"
    and n: "2 \<le> length (tubes a)"
    and c: "connect_tubes a (- 1) = Inr a1"
  shows "a1 = a\<lparr>scats := (scats a)[length (tubes a) - 2 :=
                  newscat (radii a ! (length (tubes a) - 2)) (radii a ! (length (tubes a) - 1))]\<rparr>"
proof -
  from c obtain scr where scr: "inv_square (radii a ! (length (tubes a) - 1)) = Inr scr"
    unfolding connect_tubes_unfold [OF len n] by (auto split: sum.splits)
  from c scr obtain scl where scl: "inv_square (radii a ! (length (tubes a) - 2)) = Inr scl"
    unfolding connect_tubes_unfold [OF len n] by (auto split: sum.splits)
  from connect_tubes_last [OF len n scr scl] c show ?thesis by simp
qed

lemma connect_tubes_raises:
  assumes len: "length (scats a) = length (tubes a)" "length (radii a) = length (tubes a)"
    and n: "2 \<le> length (tubes a)"
    and r: "radii a ! (length (tubes a) - 1) = 0"
  shows "connect_tubes a (- 1) = Inl ZeroDivisionError"
  unfolding connect_tubes_unfold [OF len n] r by (simp add: inv_square_zero)

lemma connect_tubes_single:
  "length (tubes a) = 1 \<Longrightarrow> connect_tubes a (- 1) = Inr a"
  by (simp add: connect_tubes_def)

text \<open>What a successful \<open>append_tube\<close> leaves behind.\<close>

lemma append_tube_result:
  assumes len: "length (scats a) = length (tubes a)" "length (radii a) = length (tubes a)"
    and app: "append_tube a dly radius losses = Inr a1"
  shows "\<exists>t. Tube_init dly losses = Inr t \<and> tubes a1 = tubes a @ [t] \<and>
           radii a1 = radii a @ [radius] \<and>
           scats a1 =
             (if tubes a = [] then [open_end]
              else (scats a)[length (tubes a) - 1 := newscat (last (radii a)) radius]
                   @ [open_end])"
proof -
  from app obtain t where t: "Tube_init dly losses = Inr t"
    by (auto simp: append_tube_def split: sum.splits)
  let ?b = "a\<lparr>tubes := tubes a @ [t], scats := scats a @ [open_end],
               radii := radii a @ [radius]\<rparr>"
  from app t have c: "connect_tubes ?b (- 1) = Inr a1"
    by (auto simp: append_tube_def Let_def split: sum.splits)
  show ?thesis
  proof (cases "tubes a = []")
    case True
    with len c t show ?thesis by (auto simp: connect_tubes_single)
  next
    case False
    then have n: "1 \<le> length (tubes a)" by (cases "tubes a") simp_all
    have lb: "length (scats ?b) = length (tubes ?b)" "length (radii ?b) = length (tubes ?b)"
      "2 \<le> length (tubes ?b)" using len n by simp_all
    have r1: "radii ?b ! (length (tubes ?b) - 1) = radius" using len by (simp add: nth_append)
    have rne: "radii a \<noteq> []" using len False by auto
    have r2: "radii ?b ! (length (tubes ?b) - 2) = last (radii a)"
      using len n rne by (auto simp: nth_append last_conv_nth)
    from connect_tubes_result [OF lb c]
    have "a1 = ?b\<lparr>scats := (scats ?b)[length (tubes ?b) - 2 :=
                   newscat (last (radii a)) radius]\<rparr>"
      unfolding r1 r2 .
    then show ?thesis using t False len n by (simp add: list_update_append)
  qed
qed

lemma append_tube_succeeds:
  assumes len: "length (scats a) = length (tubes a)" "length (radii a) = length (tubes a)"
    and t: "Tube_init dly losses = Inr t"
    and r: "tubes a = [] \<or> (radius_in_range radius \<and> radius_in_range (last (radii a)))"
  shows "\<exists>a1. append_tube a dly radius losses = Inr a1"
proof -
  let ?b = "a\<lparr>tubes := tubes a @ [t], scats := scats a @ [open_end],
               radii := radii a @ [radius]\<rparr>"
  have app: "append_tube a dly radius losses =
               (case connect_tubes ?b (- 1) of Inl e \<Rightarrow> Inl (e, ?b) | Inr a2 \<Rightarrow> Inr a2)"
    using t by (simp add: append_tube_def Let_def)
  show ?thesis
  proof (cases "tubes a = []")
    case True
    then show ?thesis unfolding app by (simp add: connect_tubes_single)
  next
    case False
    then have n: "1 \<le> length (tubes a)" by (cases "tubes a") simp_all
    have rne: "radii a \<noteq> []" using len False by auto
    have lb: "length (scats ?b) = length (tubes ?b)" "length (radii ?b) = length (tubes ?b)"
      "2 \<le> length (tubes ?b)" using len n by simp_all
    have e1: "radii ?b ! (length (tubes ?b) - 1) = radius" using len by (simp add: nth_append)
    have e2: "radii ?b ! (length (tubes ?b) - 2) = last (radii a)"
      using len n rne by (auto simp: nth_append last_conv_nth)
    from r False have rr: "radius_in_range radius" "radius_in_range (last (radii a))"
      by simp_all
    have r1: "inv_square (radii ?b ! (length (tubes ?b) - 1)) = Inr (1 / radius ^ 2)"
      unfolding e1 by (rule inv_square_in_range [OF rr(1)])
    have r2: "inv_square (radii ?b ! (length (tubes ?b) - 2)) = Inr (1 / last (radii a) ^ 2)"
      unfolding e2 by (rule inv_square_in_range [OF rr(2)])
    show ?thesis unfolding app connect_tubes_last [OF lb r1 r2] by simp
  qed
qed

text \<open>
  A call that fails in \<open>connect_tubes\<close>, here with a zero radius on an assembly that has a
  tube already, leaves the new tube, its open-end matrix and the radius appended.
\<close>

lemma append_tube_fails_after_appending:
  assumes len: "length (scats a) = length (tubes a)" "length (radii a) = length (tubes a)"
    and t: "Tube_init dly losses = Inr t" and ne: "tubes a \<noteq> []"
  shows "append_tube a dly 0 losses =
           Inl (ZeroDivisionError,
                a\<lparr>tubes := tubes a @ [t], scats := scats a @ [open_end],
                  radii := radii a @ [0]\<rparr>)"
proof -
  let ?b = "a\<lparr>tubes := tubes a @ [t], scats := scats a @ [open_end], radii := radii a @ [0]\<rparr>"
  from ne have n: "1 \<le> length (tubes a)" by (cases "tubes a") simp_all
  have lb: "length (scats ?b) = length (tubes ?b)" "length (radii ?b) = length (tubes ?b)"
    "2 \<le> length (tubes ?b)" using len n by simp_all
  have "radii ?b ! (length (tubes ?b) - 1) = 0" using len by (simp add: nth_append)
  from connect_tubes_raises [OF lb this] t show ?thesis
    by (simp add: append_tube_def Let_def)
qed

text \<open>A call that fails in the constructor leaves the assembly as it was.\<close>

lemma append_tube_overflow:
  "append_tube a 400 radius (- 9) = Inl (OverflowError, a)"
  using py_pow_overflow
  by (simp add: append_tube_def Tube_init_def DelayLine_init_def np_zeros_def)

lemma append_tube_junctions_ok:
  assumes inv: "junctions_ok a" and app: "append_tube a dly radius losses = Inr a1"
  shows "junctions_ok a1 \<and> length (tubes a1) = Suc (length (tubes a)) \<and>
         radii a1 = radii a @ [radius]"
proof -
  let ?n = "length (tubes a)"
  from inv have len: "length (scats a) = ?n" "length (radii a) = ?n"
    by (simp_all add: junctions_ok_def)
  from append_tube_result [OF len app] obtain t where
    r: "tubes a1 = tubes a @ [t]" "radii a1 = radii a @ [radius]"
       "scats a1 = (if tubes a = [] then [open_end]
                    else (scats a)[?n - 1 := newscat (last (radii a)) radius] @ [open_end])"
    by blast
  have l1: "length (scats a1) = Suc ?n" "length (radii a1) = Suc ?n" "length (tubes a1) = Suc ?n"
    using r len by (simp_all split: if_splits)
  have lastj: "scats a1 ! ?n = open_end"
    using r len by (simp add: nth_append)
  have mid: "scats a1 ! j = newscat (radii a1 ! j) (radii a1 ! Suc j)" if j: "Suc j < Suc ?n" for j
  proof (cases "Suc j = ?n")
    case True
    then have ne: "tubes a \<noteq> []" "radii a \<noteq> []" using len by auto
    have jn: "?n - 1 = j" "j < length (scats a)" using True len by simp_all
    have "scats a1 ! j = newscat (last (radii a)) radius"
      using r ne jn by (simp add: nth_append)
    moreover have "last (radii a) = radii a1 ! j"
      using r(2) len ne jn by (simp add: nth_append last_conv_nth)
    moreover have "radii a1 ! Suc j = radius" using True r len by (simp add: nth_append)
    ultimately show ?thesis by simp
  next
    case False
    with j have jj: "Suc j < ?n" by simp
    then have ne: "tubes a \<noteq> []" by auto
    have "scats a1 ! j = scats a ! j" using jj r len ne by (simp add: nth_append)
    moreover have "radii a1 ! j = radii a ! j" "radii a1 ! Suc j = radii a ! Suc j"
      using jj r len by (simp_all add: nth_append)
    moreover from inv jj have "scats a ! j = newscat (radii a ! j) (radii a ! Suc j)"
      by (simp add: junctions_ok_def)
    ultimately show ?thesis by simp
  qed
  show ?thesis using l1 lastj mid r(2) by (simp add: junctions_ok_def)
qed

lemma junctions_ok_init: "junctions_ok TubeAssembly_init"
  by (simp add: junctions_ok_def TubeAssembly_init_def)

lemma append_tubes_Cons:
  "append_tubes a ((dly, radius, losses) # cfg) = Inr a1 \<longleftrightarrow>
     (\<exists>a2. append_tube a dly radius losses = Inr a2 \<and> append_tubes a2 cfg = Inr a1)"
  by (auto split: sum.splits)

lemma append_tubes_junctions_ok:
  "junctions_ok a \<Longrightarrow> append_tubes a cfg = Inr a1 \<Longrightarrow>
     junctions_ok a1 \<and> length (tubes a1) = length (tubes a) + length cfg \<and>
     radii a1 = radii a @ map (fst \<circ> snd) cfg"
proof (induction cfg arbitrary: a)
  case Nil
  then show ?case by simp
next
  case (Cons c cfg)
  obtain dly radius losses where c: "c = (dly, radius, losses)" by (cases c)
  from Cons.prems(2) obtain a2 where
    a2: "append_tube a dly radius losses = Inr a2" "append_tubes a2 cfg = Inr a1"
    unfolding c append_tubes_Cons by blast
  from append_tube_junctions_ok [OF Cons.prems(1) a2(1)] have
    s: "junctions_ok a2" "length (tubes a2) = Suc (length (tubes a))"
       "radii a2 = radii a @ [radius]" by simp_all
  from Cons.IH [OF s(1) a2(2)] s c show ?case by simp
qed

text \<open>
  A sequence of lossless tubes of non-negative delays, with radii in range, can be appended
  to an assembly whose radii are in range.
\<close>

lemma append_tubes_lossless:
  "junctions_ok a \<Longrightarrow> \<forall>r\<in>set (radii a). radius_in_range r \<Longrightarrow>
   \<forall>(d, r, l)\<in>set cfg. 0 \<le> d \<and> radius_in_range r \<and> l = 0 \<Longrightarrow>
   \<exists>a1. append_tubes a cfg = Inr a1"
proof (induction cfg arbitrary: a)
  case Nil
  then show ?case by simp
next
  case (Cons c cfg)
  obtain dly radius losses where c: "c = (dly, radius, losses)" by (cases c)
  from Cons.prems(3) c have d: "0 \<le> dly" "radius_in_range radius" "losses = 0"
    and rest: "\<forall>(d, r, l)\<in>set cfg. 0 \<le> d \<and> radius_in_range r \<and> l = 0" by simp_all
  from Cons.prems(1) have len: "length (scats a) = length (tubes a)"
    "length (radii a) = length (tubes a)" by (simp_all add: junctions_ok_def)
  from Tube_init_lossless [OF d(1)] obtain t where t: "Tube_init dly 0 = Inr t" by blast
  have "tubes a = [] \<or> (radius_in_range radius \<and> radius_in_range (last (radii a)))"
  proof (cases "tubes a = []")
    case True
    then show ?thesis ..
  next
    case False
    then have "radii a \<noteq> []" using len by auto
    then have "last (radii a) \<in> set (radii a)" by simp
    with Cons.prems(2) d(2) show ?thesis by blast
  qed
  from append_tube_succeeds [OF len t this] obtain a2 where
    a2: "append_tube a dly radius 0 = Inr a2" ..
  from append_tube_junctions_ok [OF Cons.prems(1) a2] have
    j2: "junctions_ok a2" "radii a2 = radii a @ [radius]" by simp_all
  have r2: "\<forall>r\<in>set (radii a2). radius_in_range r" using j2(2) Cons.prems(2) d(2) by simp
  from Cons.IH [OF j2(1) r2 rest] obtain a1 where "append_tubes a2 cfg = Inr a1" ..
  with a2 c d(3) show ?case by simp
qed

text \<open>Building small assemblies: the calls succeed, with the tubes the constructor gives.\<close>

lemma build_two:
  assumes "0 \<le> d1" and "0 \<le> d2" and "radius_in_range r1" and "radius_in_range r2"
  shows "\<exists>t1 t2. Tube_init d1 0 = Inr t1 \<and> Tube_init d2 0 = Inr t2 \<and>
           append_tubes TubeAssembly_init [(d1, r1, 0), (d2, r2, 0)]
             = Inr \<lparr>tubes = [t1, t2], scats = [newscat r1 r2, open_end], radii = [r1, r2]\<rparr>"
proof -
  from Tube_init_lossless [OF assms(1)] obtain t1 where t1: "Tube_init d1 0 = Inr t1" by blast
  from Tube_init_lossless [OF assms(2)] obtain t2 where t2: "Tube_init d2 0 = Inr t2" by blast
  let ?a1 = "\<lparr>tubes = [t1], scats = [open_end], radii = [r1]\<rparr>"
  have 1: "append_tube TubeAssembly_init d1 r1 0 = Inr ?a1"
    using t1 by (simp add: append_tube_def Let_def connect_tubes_single TubeAssembly_init_def)
  have len: "length (scats ?a1) = length (tubes ?a1)" "length (radii ?a1) = length (tubes ?a1)"
    by simp_all
  from append_tube_succeeds [OF len t2, of r2] assms(3,4) obtain a2 where
    a2: "append_tube ?a1 d2 r2 0 = Inr a2" by auto
  from append_tube_result [OF len a2] t2 have
    "tubes a2 = [t1, t2]" "radii a2 = [r1, r2]" "scats a2 = [newscat r1 r2, open_end]"
    by auto
  then have "a2 = \<lparr>tubes = [t1, t2], scats = [newscat r1 r2, open_end], radii = [r1, r2]\<rparr>"
    by (cases a2) simp
  with 1 a2 t1 t2 show ?thesis by simp
qed

text \<open>
  Claim C3 says that after any sequence of \<open>append_tube\<close> calls the three sequences have
  the same length and junction \<open>i\<close> is the matrix of radii \<open>i - 1\<close> and \<open>i\<close>.  The
  lengths agree, but \<open>connect_tubes\<close> stores the matrix of radii \<open>i - 1\<close> and \<open>i\<close> in
  slot \<open>i - 1\<close>: after appending radius 1 and then radius 2, the matrix of the two radii
  is in slot 0 and slot 1 holds the open-end matrix.
\<close>

theorem junction_index_counterexample:
  "map_sum id scats (append_tubes TubeAssembly_init [(3, 1, 0), (2, 2, 0)])
     = Inr [newscat 1 2, open_end]
   \<and> newscat 1 2 = ((2 / 5, 3 / 5), (- (3 / 5), 8 / 5)) \<and> newscat 1 2 \<noteq> open_end"
proof -
  from build_two [of 3 2 1 2] small_radii_in_range
  have "map_sum id scats (append_tubes TubeAssembly_init [(3, 1, 0), (2, 2, 0)])
          = Inr [newscat 1 2, open_end]" by auto
  moreover have "newscat 1 2 = ((2 / 5, 3 / 5), (- (3 / 5), 8 / 5))"
    by (simp add: newscat_def mat_div_def m00_def m01_def m10_def m11_def Let_def)
  ultimately show ?thesis by (simp add: open_end_def)
qed

text \<open>
  Claim C3, amended.  After any sequence of successful \<open>append_tube\<close> calls on an empty
  assembly, \<open>tubes\<close>, \<open>scats\<close> and \<open>radii\<close> have the length of the sequence, the radii
  are the ones given, slot \<open>j\<close> of \<open>scats\<close> holds the matrix computed from radii \<open>j\<close>
  and \<open>j + 1\<close> for every \<open>j\<close> but the last, and the last slot holds the open-end matrix
  \<open>[[0, 1], [-1, 0]]\<close> (so does slot 0 as long as there is one tube).
\<close>

theorem junctions_after_appends:
  assumes "append_tubes TubeAssembly_init cfg = Inr a"
  shows "length (tubes a) = length cfg \<and> length (scats a) = length cfg \<and>
         length (radii a) = length cfg \<and> radii a = map (fst \<circ> snd) cfg \<and>
         (\<forall>j. Suc j < length cfg \<longrightarrow>
            scats a ! j = newscat (radii a ! j) (radii a ! Suc j)) \<and>
         (cfg \<noteq> [] \<longrightarrow> scats a ! (length cfg - 1) = open_end)"
proof -
  from append_tubes_junctions_ok [OF junctions_ok_init assms] have
    "junctions_ok a" "length (tubes a) = length cfg" "radii a = map (fst \<circ> snd) cfg"
    by (simp_all add: TubeAssembly_init_def)
  then show ?thesis by (auto simp: junctions_ok_def)
qed

theorem junctions_after_appends_witness:
  "\<exists>a. append_tubes TubeAssembly_init [(3, 1, 0), (2, 2, 0), (4, 3, 0)] = Inr a \<and>
     length (tubes a) = 3 \<and> length (scats a) = 3 \<and> length (radii a) = 3 \<and>
     radii a = [1, 2, 3] \<and>
     scats a ! 0 = newscat 1 2 \<and> scats a ! 1 = newscat 2 3 \<and> scats a ! 2 = open_end"
proof -
  have "\<forall>(d, r, l)\<in>set [(3::int, 1::real, 0::real), (2, 2, 0), (4, 3, 0)].
          0 \<le> d \<and> radius_in_range r \<and> l = 0"
    using small_radii_in_range by simp
  from append_tubes_lossless [OF junctions_ok_init _ this]
  obtain a where a: "append_tubes TubeAssembly_init [(3, 1, 0), (2, 2, 0), (4, 3, 0)] = Inr a"
    by (auto simp: TubeAssembly_init_def)
  note J = junctions_after_appends [OF a]
  from J have 1: "length (tubes a) = 3 \<and> length (scats a) = 3 \<and> length (radii a) = 3 \<and>
        radii a = [1, 2, 3]" by simp
  from J have 2: "scats a ! j = newscat (radii a ! j) (radii a ! Suc j)" if "j < 2" for j
    using that by simp
  from J have 3: "scats a ! 2 = open_end" by (simp add: numeral_2_eq_2)
  have "scats a ! 0 = newscat (radii a ! 0) (radii a ! Suc 0)"
    "scats a ! 1 = newscat (radii a ! 1) (radii a ! Suc 1)" by (rule 2, simp)+
  with 1 3 a show ?thesis by (simp add: numeral_2_eq_2)
qed

section \<open>Properties of the assembly: the junction matrix and the configuration\<close>

lemma newscat_entries:
  "m00 (newscat r_left r_right) = 2 * (1 / r_right\<^sup>2) / (1 / r_right\<^sup>2 + 1 / r_left\<^sup>2)"
  "m01 (newscat r_left r_right)
     = (1 / r_left\<^sup>2 - 1 / r_right\<^sup>2) / (1 / r_right\<^sup>2 + 1 / r_left\<^sup>2)"
  "m10 (newscat r_left r_right)
     = (1 / r_right\<^sup>2 - 1 / r_left\<^sup>2) / (1 / r_right\<^sup>2 + 1 / r_left\<^sup>2)"
  "m11 (newscat r_left r_right) = 2 * (1 / r_left\<^sup>2) / (1 / r_right\<^sup>2 + 1 / r_left\<^sup>2)"
  by (simp_all add: newscat_def Let_def mat_div_def m00_def m01_def m10_def m11_def)

text \<open>
  The two off-diagonal entries are the quotients of opposite numbers by the same number:
  their sum is zero, in exact arithmetic and for floats alike.
\<close>

lemma newscat_antisymmetric:
  "m01 (newscat r_left r_right) + m10 (newscat r_left r_right) = 0"
proof -
  let ?scr = "1 / r_right\<^sup>2" and ?scl = "1 / r_left\<^sup>2"
  have "(?scl - ?scr) / (?scr + ?scl) + (?scr - ?scl) / (?scr + ?scl)
          = ((?scl - ?scr) + (?scr - ?scl)) / (?scr + ?scl)"
    by (simp only: add_divide_distrib)
  also have "(?scl - ?scr) + (?scr - ?scl) = 0" by simp
  finally show ?thesis unfolding newscat_entries by simp
qed

text \<open>
  With equal factors the junction is transparent: the sum of the factors is twice each of
  them and their difference is zero, which is exact for floats too.
\<close>

lemma newscat_transparent:
  assumes "\<bar>r_left\<bar> = \<bar>r_right\<bar>" and "r_right \<noteq> 0"
  shows "newscat r_left r_right = ((1, 0), (0, 1))"
proof -
  have "r_left\<^sup>2 = \<bar>r_left\<bar>\<^sup>2" by simp
  also have "\<dots> = r_right\<^sup>2" unfolding assms(1) by simp
  finally have e: "r_left\<^sup>2 = r_right\<^sup>2" .
  have nz: "1 / r_right\<^sup>2 \<noteq> 0" using assms(2) by simp
  show ?thesis
    unfolding newscat_def Let_def e mat_div_def m00_def m01_def m10_def m11_def
    using nz by simp
qed

text \<open>
  Claim C7 says that the matrix \<open>M\<close> computed by \<open>connect_tubes\<close> satisfies
  \<open>M[0,1] + M[1,0] = 0\<close> and the relation \<open>M[0,0] = M[1,1]\<close> of the specification.  The
  diagonal entries are \<open>2 * scr / (scr + scl)\<close> and \<open>2 * scl / (scr + scl)\<close>, which differ
  when the radii do: for the radii 1 and 2 the matrix stored is the one below, with
  diagonal entries \<open>2/5\<close> and \<open>8/5\<close>.
\<close>

theorem diagonal_entries_counterexample:
  "map_sum id scats (append_tubes TubeAssembly_init [(3, 1, 0), (2, 2, 0)])
     = Inr [newscat 1 2, open_end]
   \<and> m00 (newscat 1 2) = 2 / 5 \<and> m11 (newscat 1 2) = 8 / 5
   \<and> m00 (newscat 1 2) \<noteq> m11 (newscat 1 2)"
proof -
  from build_two [of 3 2 1 2] small_radii_in_range
  have "map_sum id scats (append_tubes TubeAssembly_init [(3, 1, 0), (2, 2, 0)])
          = Inr [newscat 1 2, open_end]" by auto
  moreover have "m00 (newscat 1 2) = 2 / 5" "m11 (newscat 1 2) = 8 / 5"
    unfolding newscat_entries by simp_all
  ultimately show ?thesis by simp
qed

text \<open>
  Claim C7, amended.  For two radii of magnitude between \<open>2 ^ - 500\<close> and \<open>2 ^ 500\<close>,
  appending a tube of radius \<open>r_right\<close> to an assembly whose only tube has radius
  \<open>r_left\<close> makes \<open>connect_tubes\<close> store the matrix \<open>M\<close> of the construction formula in
  the slot of their junction; \<open>M\<close> satisfies \<open>M[0,1] + M[1,0] = 0\<close>, and when the two radii
  have the same magnitude \<open>M\<close> is the identity, so that \<open>M[0,0] = M[1,1] = 1\<close>.
\<close>

theorem scattering_conservation:
  assumes "radius_in_range r_left" and "radius_in_range r_right"
    and "append_tubes TubeAssembly_init [(d1, r_left, l1), (d2, r_right, l2)] = Inr a"
  shows "scats a ! 0 = newscat r_left r_right \<and>
         m01 (scats a ! 0) + m10 (scats a ! 0) = 0 \<and>
         (\<bar>r_left\<bar> = \<bar>r_right\<bar> \<longrightarrow> scats a ! 0 = ((1, 0), (0, 1)))"
proof -
  from append_tubes_junctions_ok [OF junctions_ok_init assms(3)] have
    "junctions_ok a" "length (tubes a) = 2" "radii a = [r_left, r_right]"
    by (simp_all add: TubeAssembly_init_def)
  then have M: "scats a ! 0 = newscat r_left r_right" by (simp add: junctions_ok_def)
  from assms(2) have nz: "r_right \<noteq> 0" by (auto simp: radius_in_range_def)
  show ?thesis
    unfolding M using newscat_antisymmetric [of r_left r_right]
      newscat_transparent [OF _ nz, of r_left] by simp
qed

theorem scattering_conservation_witness:
  "\<exists>a. radius_in_range 2 \<and>
     append_tubes TubeAssembly_init [(3, 2, 0), (2, 2, 0)] = Inr a \<and>
     scats a ! 0 = newscat 2 2 \<and>
     m01 (scats a ! 0) + m10 (scats a ! 0) = 0 \<and>
     \<bar>2::real\<bar> = \<bar>2\<bar> \<and> scats a ! 0 = ((1, 0), (0, 1))"
proof -
  note r = small_radii_in_range(2)
  from build_two [of 3 2 2 2] r
  obtain a where a: "append_tubes TubeAssembly_init [(3, 2, 0), (2, 2, 0)] = Inr a" by auto
  note s = scattering_conservation [OF r r a]
  have e: "\<bar>2::real\<bar> = \<bar>2\<bar>" ..
  have c1: "scats a ! 0 = newscat 2 2" by (rule s [THEN conjunct1])
  have c2: "m01 (scats a ! 0) + m10 (scats a ! 0) = 0"
    by (rule s [THEN conjunct2, THEN conjunct1])
  have c3: "scats a ! 0 = ((1, 0), (0, 1))"
    by (rule s [THEN conjunct2, THEN conjunct2, THEN mp, OF e])
  from a r c1 c2 c3 e show ?thesis by blast
qed

text \<open>
  Claim C9 says that \<open>append_tube\<close> rejects a non-positive delay, a non-positive radius
  and a loss rate outside \<open>[0, 1)\<close>.  Neither \<open>append_tube\<close> nor the constructors it calls
  check their arguments: each of the three calls below succeeds and appends a tube.
\<close>

theorem invalid_configuration_counterexample:
  "map_sum id (length \<circ> tubes) (append_tube TubeAssembly_init 0 1 0) = Inr 1 \<and>
   map_sum id (length \<circ> tubes) (append_tube TubeAssembly_init 3 (- 1) 0) = Inr 1 \<and>
   map_sum id (length \<circ> tubes) (append_tube TubeAssembly_init 3 1 2) = Inr 1 \<and>
   map_sum id (map smpl_prop_mult \<circ> tubes) (append_tube TubeAssembly_init 3 1 2) = Inr [- 1]"
  by (simp add: append_tube_def Tube_init_def DelayLine_init_def np_zeros_def py_pow_one
      py_pow_minus_one_cubed connect_tubes_def TubeAssembly_init_def Let_def)

lemma Tube_init_succeeds:
  assumes "- 5 \<le> dly" and "dly \<le> 1000"
    and "1 / 2 \<le> \<bar>1 - losses\<bar>" and "\<bar>1 - losses\<bar> \<le> 2"
  shows "\<exists>t. Tube_init dly losses = Inr t \<and> delay t = dly \<and> smpl_prop_mult t = 1 - losses"
proof -
  have z: "np_zeros (dly + 5) = Inr (replicate (nat (dly + 5)) 0)"
    using assms(1) by (simp add: np_zeros_def)
  from assms(1) have "- 1000 \<le> dly" by simp
  from py_pow_in_range [OF assms(3,4) this assms(2)]
  show ?thesis by (simp add: Tube_init_def DelayLine_init_def z Let_def)
qed

text \<open>
  Claim C9, amended.  \<open>append_tube\<close> does not validate its configuration.  On an assembly
  whose three sequences have the same length, a call with a delay from \<open>-5\<close> to 1000, a
  loss rate with \<open>1/2 \<le> \<bar>1 - losses\<bar> \<le> 2\<close> and, unless the assembly is empty, a new radius
  and a last stored radius of magnitude between \<open>2 ^ - 500\<close> and \<open>2 ^ 500\<close> succeeds and
  appends one tube that stores the delay and the radius as given and the factor
  \<open>1 - losses\<close>: delays that are zero or negative, radii that are negative (on an empty
  assembly any radius) and loss rates outside \<open>[0, 1)\<close> are accepted like the others.
\<close>

theorem append_tube_accepts:
  assumes "length (scats a) = length (tubes a)" and "length (radii a) = length (tubes a)"
    and "- 5 \<le> dly" and "dly \<le> 1000"
    and "1 / 2 \<le> \<bar>1 - losses\<bar>" and "\<bar>1 - losses\<bar> \<le> 2"
    and "tubes a = [] \<or> (radius_in_range radius \<and> radius_in_range (last (radii a)))"
  shows "\<exists>a1 t. append_tube a dly radius losses = Inr a1 \<and> tubes a1 = tubes a @ [t] \<and>
           delay t = dly \<and> smpl_prop_mult t = 1 - losses \<and> radii a1 = radii a @ [radius]"
proof -
  from Tube_init_succeeds [OF assms(3-6)] obtain t where
    t: "Tube_init dly losses = Inr t" "delay t = dly" "smpl_prop_mult t = 1 - losses" by blast
  from append_tube_succeeds [OF assms(1,2) t(1) assms(7)] obtain a1 where
    a1: "append_tube a dly radius losses = Inr a1" ..
  from append_tube_result [OF assms(1,2) a1] t a1 show ?thesis by auto
qed

theorem append_tube_accepts_witness:
  "\<exists>a1 t. append_tube TubeAssembly_init 0 (- 1) 2 = Inr a1 \<and>
     tubes a1 = tubes TubeAssembly_init @ [t] \<and> delay t = 0 \<and> smpl_prop_mult t = 1 - 2 \<and>
     radii a1 = radii TubeAssembly_init @ [- 1]"
  using append_tube_accepts [of TubeAssembly_init 0 2 "- 1"]
  by (simp add: TubeAssembly_init_def)

section \<open>Properties of the assembly: positions\<close>

lemma cum_delay_0: "cum_delay ts 0 = 0"
  by (simp add: cum_delay_def)

lemma cum_delay_Cons: "cum_delay (t # ts) (Suc j) = delay t + cum_delay ts j"
  by (simp add: cum_delay_def)

lemma cum_delay_Suc: "j < length ts \<Longrightarrow> cum_delay ts (Suc j) = cum_delay ts j + delay (ts ! j)"
  by (simp add: cum_delay_def take_Suc_conv_app_nth)

lemma get_tube_at_pos_loop_found:
  "j < length ts \<Longrightarrow> index \<le> pos + cum_delay ts (Suc j) \<Longrightarrow>
   (\<forall>k<j. pos + cum_delay ts (Suc k) < index) \<Longrightarrow>
   get_tube_at_pos_loop ts pos index = Some (ts ! j, index - (pos + cum_delay ts j))"
proof (induction ts arbitrary: pos j)
  case Nil
  then show ?case by simp
next
  case (Cons t ts)
  show ?case
  proof (cases j)
    case 0
    with Cons.prems show ?thesis by (simp add: cum_delay_def)
  next
    case (Suc j')
    from Cons.prems(3) Suc have "pos + cum_delay (t # ts) (Suc 0) < index" by blast
    then have lt: "pos + delay t < index" by (simp add: cum_delay_def)
    have 1: "j' < length ts" using Cons.prems(1) Suc by simp
    have 2: "index \<le> (pos + delay t) + cum_delay ts (Suc j')"
      using Cons.prems(2) Suc by (simp add: cum_delay_Cons)
    have 3: "\<forall>k<j'. (pos + delay t) + cum_delay ts (Suc k) < index"
    proof (intro allI impI)
      fix k assume "k < j'"
      then have "Suc k < j" using Suc by simp
      with Cons.prems(3) have "pos + cum_delay (t # ts) (Suc (Suc k)) < index" by blast
      then show "(pos + delay t) + cum_delay ts (Suc k) < index" by (simp add: cum_delay_Cons)
    qed
    from Cons.IH [OF 1 2 3] lt Suc show ?thesis
      by (simp add: cum_delay_Cons Let_def)
  qed
qed

lemma get_tube_at_pos_loop_none:
  "(\<forall>k<length ts. pos + cum_delay ts (Suc k) < index) \<Longrightarrow>
   get_tube_at_pos_loop ts pos index = None"
proof (induction ts arbitrary: pos)
  case Nil
  then show ?case by simp
next
  case (Cons t ts)
  from Cons.prems have "pos + cum_delay (t # ts) (Suc 0) < index" by auto
  then have lt: "pos + delay t < index" by (simp add: cum_delay_def)
  have "\<forall>k<length ts. (pos + delay t) + cum_delay ts (Suc k) < index"
  proof (intro allI impI)
    fix k assume "k < length ts"
    then have "Suc k < length (t # ts)" by simp
    with Cons.prems have "pos + cum_delay (t # ts) (Suc (Suc k)) < index" by blast
    then show "(pos + delay t) + cum_delay ts (Suc k) < index" by (simp add: cum_delay_Cons)
  qed
  from Cons.IH [OF this] lt show ?case by (simp add: Let_def)
qed

lemma cum_delay_mono:
  assumes "\<forall>t\<in>set ts. 0 \<le> delay t" and "j \<le> k" and "k \<le> length ts"
  shows "cum_delay ts j \<le> cum_delay ts k"
  using assms(2,3)
proof (induction k)
  case 0
  then show ?case by simp
next
  case (Suc k)
  show ?case
  proof (cases "j = Suc k")
    case True
    then show ?thesis by simp
  next
    case False
    with Suc.prems have jk: "j \<le> k" "k < length ts" by simp_all
    then have "0 \<le> delay (ts ! k)" using assms(1) by simp
    with Suc.IH jk show ?thesis by (simp add: cum_delay_Suc)
  qed
qed

lemma cum_delay_strict:
  assumes "\<forall>t\<in>set ts. 1 \<le> delay t" and "j < k" and "k \<le> length ts"
  shows "cum_delay ts j < cum_delay ts k"
proof -
  have nn: "\<forall>t\<in>set ts. 0 \<le> delay t" using assms(1) by force
  have j: "j < length ts" using assms by simp
  then have "1 \<le> delay (ts ! j)" using assms(1) by simp
  then have "cum_delay ts j < cum_delay ts (Suc j)" using j by (simp add: cum_delay_Suc)
  also have "cum_delay ts (Suc j) \<le> cum_delay ts k"
    using assms by (intro cum_delay_mono nn) simp_all
  finally show ?thesis .
qed

lemma Tube_init_fields:
  "Tube_init dly losses = Inr t \<Longrightarrow> delay t = dly \<and> smpl_prop_mult t = 1 - losses"
  by (auto simp: Tube_init_def split: sum.splits)

lemma append_tubes_delays:
  "junctions_ok a \<Longrightarrow> append_tubes a cfg = Inr a1 \<Longrightarrow>
     map delay (tubes a1) = map delay (tubes a) @ map fst cfg"
proof (induction cfg arbitrary: a)
  case Nil
  then show ?case by simp
next
  case (Cons c cfg)
  obtain dly radius losses where c: "c = (dly, radius, losses)" by (cases c)
  from Cons.prems(2) obtain a2 where
    a2: "append_tube a dly radius losses = Inr a2" "append_tubes a2 cfg = Inr a1"
    unfolding c append_tubes_Cons by blast
  from Cons.prems(1) have len: "length (scats a) = length (tubes a)"
    "length (radii a) = length (tubes a)" by (simp_all add: junctions_ok_def)
  from append_tube_result [OF len a2(1)] obtain t where
    t: "Tube_init dly losses = Inr t" "tubes a2 = tubes a @ [t]" by blast
  from append_tube_junctions_ok [OF Cons.prems(1) a2(1)] have j2: "junctions_ok a2" by simp
  from Cons.IH [OF j2 a2(2)] t(2) Tube_init_fields [OF t(1)] c show ?case by simp
qed

text \<open>
  Claim C10.  For an assembly with at least one tube and a position
  \<open>0 \<le> i \<le> total delay\<close>, \<open>get_tube_at_pos\<close> returns the first tube \<open>j\<close> whose end
  position (the sum of the delays up to and including it) is at least \<open>i\<close>, with the
  local position \<open>i\<close> minus the start position of that tube.  With delays of at least 1,
  a position that is the end of tube \<open>j\<close> resolves to tube \<open>j\<close> (the one on the left of the
  boundary) at local position \<open>delay\<close>.  With non-negative delays, a position beyond the
  total delay returns no tube, and \<open>get_sum_at_pos\<close> of the assembly raises there.
\<close>

theorem get_tube_at_pos_resolves:
  assumes "tubes a \<noteq> []"
  shows "(0 \<le> i \<and> i \<le> cum_delay (tubes a) (length (tubes a)) \<longrightarrow>
           (\<exists>j<length (tubes a).
              get_tube_at_pos a i = Some (tubes a ! j, i - cum_delay (tubes a) j) \<and>
              i \<le> cum_delay (tubes a) (Suc j) \<and>
              (\<forall>k<j. cum_delay (tubes a) (Suc k) < i))) \<and>
         ((\<forall>t\<in>set (tubes a). 1 \<le> delay t) \<longrightarrow>
           (\<forall>j<length (tubes a).
              get_tube_at_pos a (cum_delay (tubes a) (Suc j))
                = Some (tubes a ! j, delay (tubes a ! j)))) \<and>
         ((\<forall>t\<in>set (tubes a). 0 \<le> delay t) \<and> cum_delay (tubes a) (length (tubes a)) < i \<longrightarrow>
           get_tube_at_pos a i = None \<and> assembly_get_sum_at_pos a i = Inl TypeError)"
proof (intro conjI impI)
  let ?ts = "tubes a"
  let ?P = "\<lambda>j. j < length ?ts \<and> i \<le> cum_delay ?ts (Suc j)"
  assume "0 \<le> i \<and> i \<le> cum_delay ?ts (length ?ts)"
  then have "?P (length ?ts - 1)" using assms by (cases ?ts) simp_all
  then have "\<exists>j. ?P j" ..
  then obtain j where j: "?P j" "\<forall>m<j. \<not> ?P m"
    using exists_least_iff [of ?P] by blast
  have below: "\<forall>k<j. cum_delay ?ts (Suc k) < i"
  proof (intro allI impI)
    fix k assume k: "k < j"
    with j(2) have "\<not> ?P k" by blast
    moreover have "k < length ?ts" using k j(1) by simp
    ultimately show "cum_delay ?ts (Suc k) < i" by simp
  qed
  from j(1) below have "get_tube_at_pos_loop ?ts 0 i = Some (?ts ! j, i - (0 + cum_delay ?ts j))"
    by (intro get_tube_at_pos_loop_found) simp_all
  with j(1) below show "\<exists>j<length ?ts.
      get_tube_at_pos a i = Some (?ts ! j, i - cum_delay ?ts j) \<and>
      i \<le> cum_delay ?ts (Suc j) \<and> (\<forall>k<j. cum_delay ?ts (Suc k) < i)"
    by (auto simp: get_tube_at_pos_def)
next
  let ?ts = "tubes a"
  assume d: "\<forall>t\<in>set ?ts. 1 \<le> delay t"
  show "\<forall>j<length ?ts. get_tube_at_pos a (cum_delay ?ts (Suc j)) = Some (?ts ! j, delay (?ts ! j))"
  proof (intro allI impI)
    fix j assume j: "j < length ?ts"
    have below: "\<forall>k<j. 0 + cum_delay ?ts (Suc k) < cum_delay ?ts (Suc j)"
      using d j by (auto intro!: cum_delay_strict)
    have "get_tube_at_pos_loop ?ts 0 (cum_delay ?ts (Suc j))
            = Some (?ts ! j, cum_delay ?ts (Suc j) - (0 + cum_delay ?ts j))"
      using j below by (intro get_tube_at_pos_loop_found) simp_all
    then show "get_tube_at_pos a (cum_delay ?ts (Suc j)) = Some (?ts ! j, delay (?ts ! j))"
      using j by (simp add: get_tube_at_pos_def cum_delay_Suc)
  qed
next
  let ?ts = "tubes a"
  assume h: "(\<forall>t\<in>set ?ts. 0 \<le> delay t) \<and> cum_delay ?ts (length ?ts) < i"
  have "\<forall>k<length ?ts. 0 + cum_delay ?ts (Suc k) < i"
  proof (intro allI impI)
    fix k assume "k < length ?ts"
    then have "cum_delay ?ts (Suc k) \<le> cum_delay ?ts (length ?ts)"
      using h by (intro cum_delay_mono) simp_all
    with h show "0 + cum_delay ?ts (Suc k) < i" by simp
  qed
  then have "get_tube_at_pos_loop ?ts 0 i = None" by (rule get_tube_at_pos_loop_none)
  then show n: "get_tube_at_pos a i = None" by (simp add: get_tube_at_pos_def)
  then show "assembly_get_sum_at_pos a i = Inl TypeError"
    by (simp add: assembly_get_sum_at_pos_def)
qed

theorem get_tube_at_pos_resolves_witness:
  "\<exists>a. append_tubes TubeAssembly_init [(3, 1, 0), (2, 1, 0)] = Inr a \<and>
     tubes a \<noteq> [] \<and> (\<forall>t\<in>set (tubes a). 1 \<le> delay t) \<and>
     cum_delay (tubes a) (length (tubes a)) = 5 \<and>
     get_tube_at_pos a 3 = Some (tubes a ! 0, 3) \<and>
     get_tube_at_pos a 4 = Some (tubes a ! 1, 1) \<and>
     get_tube_at_pos a 5 = Some (tubes a ! 1, 2) \<and>
     get_tube_at_pos a 6 = None \<and> assembly_get_sum_at_pos a 6 = Inl TypeError"
proof -
  from build_two [of 3 2 1 1] small_radii_in_range(1)
  obtain a where a: "append_tubes TubeAssembly_init [(3, 1, 0), (2, 1, 0)] = Inr a" by auto
  let ?ts = "tubes a"
  from append_tubes_delays [OF junctions_ok_init a] have D: "map delay ?ts = [3, 2]"
    by (simp add: TubeAssembly_init_def)
  then have len: "length ?ts = 2" by (metis length_map length_Cons list.size(3) numeral_2_eq_2)
  then have ne: "?ts \<noteq> []" by auto
  have cum: "cum_delay ?ts j = sum_list (take j (map delay ?ts))" for j
    by (simp add: cum_delay_def take_map)
  have c0: "cum_delay ?ts 0 = 0" and c1: "cum_delay ?ts (Suc 0) = 3"
    and c2: "cum_delay ?ts (Suc (Suc 0)) = 5" unfolding cum D by simp_all
  have d0: "delay (?ts ! 0) = 3" and d1: "delay (?ts ! 1) = 2"
    using D len by (metis nth_map nth_Cons_0 zero_less_numeral,
                    metis nth_map nth_Cons_0 nth_Cons_Suc One_nat_def one_less_numeral_iff semiring_norm(76))
  have "\<forall>x\<in>set (map delay ?ts). 1 \<le> x" unfolding D by simp
  then have pos: "\<forall>t\<in>set ?ts. 1 \<le> delay t" by simp
  then have nn: "\<forall>t\<in>set ?ts. 0 \<le> delay t" by force
  note T = get_tube_at_pos_resolves [OF ne]
  from T [of 0] pos have B: "\<forall>j<length ?ts.
      get_tube_at_pos a (cum_delay ?ts (Suc j)) = Some (?ts ! j, delay (?ts ! j))" by blast
  from B len have g3: "get_tube_at_pos a 3 = Some (?ts ! 0, 3)"
    using c1 d0 by (metis zero_less_numeral)
  from B len have g5: "get_tube_at_pos a 5 = Some (?ts ! 1, 2)"
    using c2 d1 by (metis One_nat_def one_less_numeral_iff semiring_norm(76))
  from T [of 6] nn len c2 have g6: "get_tube_at_pos a 6 = None \<and>
      assembly_get_sum_at_pos a 6 = Inl TypeError" by (simp add: numeral_2_eq_2)
  from T [of 4] len c2 obtain j where j: "j < 2"
    "get_tube_at_pos a 4 = Some (?ts ! j, 4 - cum_delay ?ts j)" "4 \<le> cum_delay ?ts (Suc j)"
    by (auto simp: numeral_2_eq_2)
  have "j = 1"
  proof (rule ccontr)
    assume "j \<noteq> 1"
    with j(1) have "j = 0" by simp
    with j(3) c1 show False by simp
  qed
  with j(2) c1 have g4: "get_tube_at_pos a 4 = Some (?ts ! 1, 1)" by simp
  show ?thesis using a ne pos len c2 g3 g4 g5 g6 by (auto simp: numeral_2_eq_2)
qed

section \<open>Properties of the assembly: one tick\<close>

lemma exit_offset_nonneg: "0 \<le> d \<Longrightarrow> 0 \<le> exit_offset d"
  by (simp add: exit_offset_def)

lemma exit_offset_ge_2: "2 \<le> d \<Longrightarrow> exit_offset d = d - 2"
  by (simp add: exit_offset_def)

lemma read_outgoing_holds:
  assumes "tube_holds t ins outs"
  shows "read_outgoing t
           = Inr (sample_ago outs ((delay t - 2) mod (delay t + 5)) * prop_mult t)"
proof -
  from assms have h: "dl_holds (dlout t) outs" "DelayLine.delay (dlout t) = delay t"
    "n_samp (dlout t) = delay t + 5" by (simp_all add: tube_holds_def tube_wf_def)
  show ?thesis
    unfolding read_outgoing_def h(2) read_delay_holds [OF h(1)] h(3) by simp
qed

lemma read_incoming_holds:
  assumes "tube_holds t ins outs"
  shows "read_incoming t
           = Inr (sample_ago ins ((delay t - 2) mod (delay t + 5)) * prop_mult t)"
proof -
  from assms have h: "dl_holds (dlin t) ins" "DelayLine.delay (dlin t) = delay t"
    "n_samp (dlin t) = delay t + 5" by (simp_all add: tube_holds_def tube_wf_def)
  show ?thesis
    unfolding read_incoming_def h(2) read_delay_holds [OF h(1)] h(3) by simp
qed

lemma read_incoming_at_pos_holds:
  assumes "tube_holds t ins outs" and "smpl_prop_mult t = 1"
    and "0 \<le> i" and "i \<le> delay t"
  shows "read_incoming_at_pos t i = Inr (sample_ago ins (delay t - i))"
proof -
  from assms(1) have h: "dl_holds (dlin t) ins" "n_samp (dlin t) = delay t + 5"
    by (simp_all add: tube_holds_def tube_wf_def)
  have m: "(delay t - i) mod (delay t + 5) = delay t - i" using assms(3,4) by simp
  show ?thesis
    unfolding read_incoming_at_pos_def
    by (simp add: read_delay_holds [OF h(1)] h(2) m assms(2) py_pow_one)
qed

lemma insert_incoming_holds:
  assumes "tube_holds t ins outs"
  shows "\<exists>t1. insert_incoming_sample t x = Inr t1 \<and> tube_holds t1 (ins @ [x]) outs \<and>
           delay t1 = delay t \<and> prop_mult t1 = prop_mult t \<and>
           smpl_prop_mult t1 = smpl_prop_mult t"
proof -
  from assms have h: "dl_holds (dlin t) ins" by (simp add: tube_holds_def)
  from insert_sample_ok [OF h, of x] obtain l where
    l: "insert_sample (dlin t) x = Inr l" "dl_holds l (ins @ [x])"
       "DelayLine.delay l = DelayLine.delay (dlin t)" "n_samp l = n_samp (dlin t)" by blast
  then have "dl_wf l" by (simp add: dl_holds_def)
  with l assms show ?thesis
    by (simp add: insert_incoming_sample_def tube_holds_def tube_wf_def)
qed

lemma insert_outgoing_holds:
  assumes "tube_holds t ins outs"
  shows "\<exists>t1. insert_outgoing_sample t x = Inr t1 \<and> tube_holds t1 ins (outs @ [x]) \<and>
           delay t1 = delay t \<and> prop_mult t1 = prop_mult t \<and>
           smpl_prop_mult t1 = smpl_prop_mult t"
proof -
  from assms have h: "dl_holds (dlout t) outs" by (simp add: tube_holds_def)
  from insert_sample_ok [OF h, of x] obtain l where
    l: "insert_sample (dlout t) x = Inr l" "dl_holds l (outs @ [x])"
       "DelayLine.delay l = DelayLine.delay (dlout t)" "n_samp l = n_samp (dlout t)" by blast
  then have "dl_wf l" by (simp add: dl_holds_def)
  with l assms show ?thesis
    by (simp add: insert_outgoing_sample_def tube_holds_def tube_wf_def)
qed

lemma py_get_last: "xs \<noteq> [] \<Longrightarrow> py_get xs (- 1) = Inr (xs ! (length xs - 1))"
  by (cases xs) (simp_all add: py_get_def py_index_def nat_diff_distrib')

lemma scatter_in_range:
  assumes "ii < length (scats a)"
  shows "scatter a (int ii) plout prin
           = Inr (prin * m01 (scats a ! ii) + plout * m00 (scats a ! ii),
                  prin * m11 (scats a ! ii) + plout * m10 (scats a ! ii))"
  using assms py_get_in_range [of "int ii" "scats a"] by (simp add: scatter_def Let_def)

lemma impulse_ago:
  assumes "0 \<le> k"
  shows "sample_ago (v # replicate j 0) k = (if k = int j then v else 0)"
proof -
  have r: "rev (v # replicate j 0) = replicate j 0 @ [v]" by simp
  show ?thesis
    unfolding sample_ago_def r using assms by (auto simp: nth_append)
qed

subsection \<open>A lossless tube between transparent junctions\<close>

text \<open>
  A line that holds a history delayed by \<open>off\<close> ticks still does after one more sample
  of the history went in at each end.
\<close>

lemma history_snoc:
  assumes "\<forall>k. 0 \<le> k \<longrightarrow> sample_ago xs k = f (sample_ago h (k + off))"
    and "0 \<le> off" and "0 \<le> k"
  shows "sample_ago (xs @ [f (sample_ago (h @ [v]) off)]) k = f (sample_ago (h @ [v]) (k + off))"
proof (cases "k = 0")
  case True
  then show ?thesis by (simp add: sample_ago_snoc_0)
next
  case False
  with assms(3) have kp: "0 < k" by simp
  then have "sample_ago (xs @ [f (sample_ago (h @ [v]) off)]) k = sample_ago xs (k - 1)"
    by (rule sample_ago_snoc_pos)
  also have "\<dots> = f (sample_ago h (k - 1 + off))" using assms(1) kp by simp
  also have "sample_ago h (k - 1 + off) = sample_ago (h @ [v]) (k + off)"
  proof -
    have "0 < k + off" using kp assms(2) by simp
    from sample_ago_snoc_pos [OF this, of h v] show ?thesis by (simp add: algebra_simps)
  qed
  finally show ?thesis .
qed

lemma carries_nonneg: "tube_carries t d h ko ki \<Longrightarrow> 0 \<le> d"
  by (auto simp: tube_carries_def tube_holds_def)

lemma carries_read_outgoing:
  assumes "tube_carries t d h ko ki"
  shows "read_outgoing t = Inr (sample_ago h (exit_offset d + ko))"
proof -
  from assms obtain ins outs where
    h: "tube_holds t ins outs" "delay t = d" "prop_mult t = 1"
    and o: "\<forall>k. 0 \<le> k \<longrightarrow> sample_ago outs k = sample_ago h (k + ko)"
    unfolding tube_carries_def by blast
  have "0 \<le> exit_offset d" by (rule exit_offset_nonneg [OF carries_nonneg [OF assms]])
  with o have "sample_ago outs (exit_offset d) = sample_ago h (exit_offset d + ko)" by simp
  with read_outgoing_holds [OF h(1)] h(2,3) show ?thesis by (simp add: exit_offset_def)
qed

lemma carries_read_incoming:
  assumes "tube_carries t d h ko ki"
  shows "read_incoming t = Inr (- sample_ago h (exit_offset d + ki))"
proof -
  from assms obtain ins outs where
    h: "tube_holds t ins outs" "delay t = d" "prop_mult t = 1"
    and i: "\<forall>k. 0 \<le> k \<longrightarrow> sample_ago ins k = - sample_ago h (k + ki)"
    unfolding tube_carries_def by blast
  have "0 \<le> exit_offset d" by (rule exit_offset_nonneg [OF carries_nonneg [OF assms]])
  with i have "sample_ago ins (exit_offset d) = - sample_ago h (exit_offset d + ki)" by simp
  with read_incoming_holds [OF h(1)] h(2,3) show ?thesis by (simp add: exit_offset_def)
qed

lemma carries_step:
  assumes "tube_carries t d h ko ki" and "0 \<le> ko" and "0 \<le> ki"
  shows "\<exists>t1 t2. insert_incoming_sample t (- sample_ago (h @ [v]) ki) = Inr t1 \<and>
           insert_outgoing_sample t1 (sample_ago (h @ [v]) ko) = Inr t2 \<and>
           tube_carries t2 d (h @ [v]) ko ki"
proof -
  from assms(1) obtain ins outs where
    h: "tube_holds t ins outs" "delay t = d" "prop_mult t = 1" "smpl_prop_mult t = 1"
    and o: "\<forall>k. 0 \<le> k \<longrightarrow> sample_ago outs k = sample_ago h (k + ko)"
    and i: "\<forall>k. 0 \<le> k \<longrightarrow> sample_ago ins k = - sample_ago h (k + ki)"
    unfolding tube_carries_def by blast
  let ?x = "- sample_ago (h @ [v]) ki" and ?y = "sample_ago (h @ [v]) ko"
  from insert_incoming_holds [OF h(1), of ?x] obtain t1 where
    t1: "insert_incoming_sample t ?x = Inr t1" "tube_holds t1 (ins @ [?x]) outs"
        "delay t1 = delay t" "prop_mult t1 = prop_mult t" "smpl_prop_mult t1 = smpl_prop_mult t"
    by blast
  from insert_outgoing_holds [OF t1(2), of ?y] obtain t2 where
    t2: "insert_outgoing_sample t1 ?y = Inr t2" "tube_holds t2 (ins @ [?x]) (outs @ [?y])"
        "delay t2 = delay t1" "prop_mult t2 = prop_mult t1"
        "smpl_prop_mult t2 = smpl_prop_mult t1"
    by blast
  have o1: "\<forall>k. 0 \<le> k \<longrightarrow> sample_ago (outs @ [?y]) k = sample_ago (h @ [v]) (k + ko)"
    using history_snoc [where f = "\<lambda>x. x", OF o assms(2)] by simp
  have i1: "\<forall>k. 0 \<le> k \<longrightarrow> sample_ago (ins @ [?x]) k = - sample_ago (h @ [v]) (k + ki)"
    using history_snoc [where f = uminus, OF i assms(3)] by simp
  have "tube_carries t2 d (h @ [v]) ko ki"
    unfolding tube_carries_def using t2(2-5) t1(3-5) h(2-4) o1 i1 by auto
  with t1(1) t2(1) show ?thesis by blast
qed

lemma fresh_carries:
  assumes "fresh t"
  shows "tube_carries t (delay t) [] ko ki"
  unfolding tube_carries_def
  using assms by (intro exI [of _ "[]"]) (simp add: fresh_def sample_ago_Nil)

subsection \<open>The ticks at which a sample reaches each tube\<close>

lemma transit_pos: "0 \<le> d \<Longrightarrow> 1 \<le> transit d"
  using exit_offset_nonneg [of d] by (simp add: transit_def)

lemma arrival_0: "arrival ds 0 = 0"
  by (simp add: arrival_def)

lemma arrival_Suc: "j < length ds \<Longrightarrow> arrival ds (Suc j) = arrival ds j + transit (ds ! j)"
  by (simp add: arrival_def take_Suc_conv_app_nth)

lemma arrival_nonneg:
  assumes "\<forall>d\<in>set ds. 0 \<le> d"
  shows "0 \<le> arrival ds j"
proof -
  have "0 \<le> x" if "x \<in> set (map transit (take j ds))" for x
  proof -
    from that obtain d where "d \<in> set (take j ds)" "x = transit d" by auto
    with assms transit_pos [of d] set_take_subset [of j ds] show ?thesis by auto
  qed
  then show ?thesis unfolding arrival_def by (intro sum_list_nonneg) simp
qed

lemma arrival_le_end:
  assumes "\<forall>d\<in>set ds. 0 \<le> d"
  shows "arrival ds j \<le> arrival ds (length ds)"
proof -
  have "0 \<le> x" if "x \<in> set (map transit (drop j ds))" for x
  proof -
    from that obtain d where "d \<in> set (drop j ds)" "x = transit d" by auto
    with assms transit_pos [of d] set_drop_subset [of j ds] show ?thesis by auto
  qed
  then have "0 \<le> sum_list (map transit (drop j ds))" by (intro sum_list_nonneg) simp
  moreover have "sum_list (map transit ds)
                   = sum_list (map transit (take j ds)) + sum_list (map transit (drop j ds))"
    by (metis append_take_drop_id map_append sum_list_append)
  ultimately show ?thesis by (simp add: arrival_def)
qed

lemma way_back_nonneg:
  assumes "\<forall>d\<in>set ds. 0 \<le> d"
  shows "0 \<le> way_back ds j"
  using arrival_le_end [OF assms, of "Suc j"] arrival_nonneg [OF assms, of "length ds"]
  by (simp add: way_back_def)

lemma way_back_Suc: "Suc j < length ds \<Longrightarrow> way_back ds j = way_back ds (Suc j) + transit (ds ! Suc j)"
  by (simp add: way_back_def arrival_Suc)

lemma way_back_last:
  assumes "ds \<noteq> []"
  shows "way_back ds (length ds - 1) = arrival ds (length ds)"
    and "arrival ds (length ds)
           = arrival ds (length ds - 1) + transit (ds ! (length ds - 1))"
proof -
  from assms have n: "Suc (length ds - 1) = length ds" "length ds - 1 < length ds"
    by (cases ds, simp_all)+
  show "way_back ds (length ds - 1) = arrival ds (length ds)"
    using n(1) by (simp add: way_back_def)
  from arrival_Suc [OF n(2)] n(1) show "arrival ds (length ds)
           = arrival ds (length ds - 1) + transit (ds ! (length ds - 1))"
    by simp
qed

lemma arrival_ge_2:
  assumes "\<forall>d\<in>set ds. 2 \<le> d"
  shows "arrival ds (length ds) = sum_list ds - int (length ds)"
proof -
  have "sum_list (map transit ds) = sum_list ds - int (length ds)"
    using assms by (induction ds) (simp_all add: transit_def exit_offset_ge_2)
  then show ?thesis by (simp add: arrival_def)
qed

lemma carried_nth:
  "carried ds ts i h1 h0 \<Longrightarrow> j < length ds \<Longrightarrow>
     tube_carries (ts ! j) (ds ! j) (if j < i then h1 else h0) (arrival ds j) (way_back ds j)"
  by (simp add: carried_def)

lemma carried_nonneg:
  assumes "carried ds ts i h1 h0"
  shows "\<forall>d\<in>set ds. 0 \<le> d"
proof
  fix d assume "d \<in> set ds"
  then obtain j where j: "j < length ds" "ds ! j = d" by (auto simp: in_set_conv_nth)
  with carried_nth [OF assms, of j]
  have "tube_carries (ts ! j) d (if j < i then h1 else h0) (arrival ds j) (way_back ds j)"
    by simp
  then show "0 \<le> d" by (rule carries_nonneg)
qed

section \<open>Properties of the assembly: what reaches the terminal end\<close>

text \<open>The loop of \<open>insert_values\<close> from junction \<open>i\<close> on, between transparent junctions.\<close>

lemma insert_values_loop_transparent:
  assumes "transparent ds (scats a)" and "carried ds (tubes a) i (h @ [v]) h"
    and "i \<le> length ds - 1"
  shows "\<exists>a1. insert_values_loop [i..<length ds - 1] a (sample_ago (h @ [v]) (arrival ds i))
                = Inr (a1, sample_ago (h @ [v]) (arrival ds (length ds - 1))) \<and>
              scats a1 = scats a \<and> radii a1 = radii a \<and>
              carried ds (tubes a1) (length ds - 1) (h @ [v]) h"
  using assms
proof (induction "length ds - 1 - i" arbitrary: i a)
  case 0
  then have "i = length ds - 1" by simp
  with "0.prems" show ?case by simp
next
  case (Suc m)
  let ?n = "length ds"
  let ?h1 = "h @ [v]"
  from Suc.hyps(2) have ii: "Suc i < ?n" by simp
  note tr = Suc.prems(1) and c = Suc.prems(2)
  have nn: "\<forall>d\<in>set ds. 0 \<le> d" by (rule carried_nonneg [OF c])
  from c have len: "length (tubes a) = ?n" by (simp add: carried_def)
  have cl: "tube_carries (tubes a ! i) (ds ! i) h (arrival ds i) (way_back ds i)"
    using carried_nth [OF c, of i] ii by simp
  have
    cr: "tube_carries (tubes a ! Suc i) (ds ! Suc i) h (arrival ds (Suc i)) (way_back ds (Suc i))"
    using carried_nth [OF c, of "Suc i"] ii by simp
  have g1: "py_get (tubes a) (int i) = Inr (tubes a ! i)"
    using ii len py_get_in_range [of "int i" "tubes a"] by simp
  have g2: "py_get (tubes a) (int i + 1) = Inr (tubes a ! Suc i)"
    using ii len py_get_in_range [of "int i + 1" "tubes a"] by (simp add: nat_add_distrib)
  have di: "0 \<le> ds ! i" "0 \<le> ds ! Suc i" using nn ii by simp_all
  have a0: "0 \<le> arrival ds i" by (rule arrival_nonneg [OF nn])
  have b0: "0 \<le> way_back ds (Suc i)" by (rule way_back_nonneg [OF nn])
  have b1: "0 \<le> way_back ds i" by (rule way_back_nonneg [OF nn])
  have q0: "0 \<le> exit_offset (ds ! i)" "0 \<le> exit_offset (ds ! Suc i)"
    using di by (simp_all add: exit_offset_nonneg)
  have e1: "sample_ago h (exit_offset (ds ! i) + arrival ds i)
              = sample_ago ?h1 (arrival ds (Suc i))"
    using ii a0 q0 by (simp add: arrival_Suc transit_def sample_ago_snoc_pos add.commute)
  have e2: "sample_ago h (exit_offset (ds ! Suc i) + way_back ds (Suc i))
              = sample_ago ?h1 (way_back ds i)"
    using ii b0 q0 by (simp add: way_back_Suc transit_def sample_ago_snoc_pos add.commute)
  have plout: "read_outgoing (tubes a ! i) = Inr (sample_ago ?h1 (arrival ds (Suc i)))"
    using carries_read_outgoing [OF cl] e1 by simp
  have prin: "read_incoming (tubes a ! Suc i) = Inr (- sample_ago ?h1 (way_back ds i))"
    using carries_read_incoming [OF cr] e2 by simp
  have "i < length (scats a)" using tr ii by (simp add: transparent_def)
  from scatter_in_range [OF this, of "sample_ago ?h1 (arrival ds (Suc i))"
                            "- sample_ago ?h1 (way_back ds i)"]
  have sc: "scatter a (int i) (sample_ago ?h1 (arrival ds (Suc i)))
              (- sample_ago ?h1 (way_back ds i))
            = Inr (sample_ago ?h1 (arrival ds (Suc i)), - sample_ago ?h1 (way_back ds i))"
    using tr ii by (simp add: transparent_def m00_def m01_def m10_def m11_def)
  from carries_step [OF cl a0 b1, of v] obtain t1 t2 where
    t: "insert_incoming_sample (tubes a ! i) (- sample_ago ?h1 (way_back ds i)) = Inr t1"
       "insert_outgoing_sample t1 (sample_ago ?h1 (arrival ds i)) = Inr t2"
       "tube_carries t2 (ds ! i) ?h1 (arrival ds i) (way_back ds i)" by blast
  let ?b = "a\<lparr>tubes := (tubes a)[i := t2]\<rparr>"
  have u: "[i..<?n - 1] = i # [Suc i..<?n - 1]" using ii by (simp add: upt_conv_Cons)
  have step: "insert_values_loop [i..<?n - 1] a (sample_ago ?h1 (arrival ds i))
                = insert_values_loop [Suc i..<?n - 1] ?b (sample_ago ?h1 (arrival ds (Suc i)))"
    unfolding u using g1 g2 plout prin sc t(1,2) by simp
  have cb: "carried ds (tubes ?b) (Suc i) ?h1 h"
    unfolding carried_def
  proof (intro conjI allI impI)
    show "length (tubes ?b) = ?n" using len by simp
    fix j assume j: "j < ?n"
    show "tube_carries (tubes ?b ! j) (ds ! j) (if j < Suc i then ?h1 else h)
            (arrival ds j) (way_back ds j)"
    proof (cases "j = i")
      case True
      with t(3) len ii show ?thesis by simp
    next
      case False
      then have "(j < Suc i) = (j < i)" by auto
      with carried_nth [OF c j] False show ?thesis by simp
    qed
  qed
  have m: "m = ?n - 1 - Suc i" using Suc.hyps(2) by simp
  have trb: "transparent ds (scats ?b)" using tr by simp
  from Suc.hyps(1) [OF m trb cb] ii show ?case unfolding step by simp
qed

text \<open>
  One call of \<open>insert_values\<close> with \<^verbatim>\<open>ret_val = 0\<close> returns 0, and every tube carries the
  history with the new value.
\<close>

lemma insert_values_transparent:
  assumes tr: "transparent ds (scats a)" and c: "carried ds (tubes a) 0 h h"
  shows "\<exists>a1. insert_values a v 0 = Inr (a1, 0) \<and> scats a1 = scats a \<and>
           carried ds (tubes a1) 0 (h @ [v]) (h @ [v])"
proof -
  let ?n = "length ds"
  let ?h1 = "h @ [v]"
  from tr have ne: "ds \<noteq> []" by (simp add: transparent_def)
  then have n: "0 < ?n" by simp
  have nn: "\<forall>d\<in>set ds. 0 \<le> d" by (rule carried_nonneg [OF c])
  from c have len: "length (tubes a) = ?n" by (simp add: carried_def)
  from c have c0: "carried ds (tubes a) 0 ?h1 h" by (simp add: carried_def)
  have sl: "length (py_slice_to (tubes a) (- 1)) = ?n - 1"
    using len by (simp add: py_slice_to_def nat_diff_distrib')
  have v: "sample_ago ?h1 (arrival ds 0) = v" by (simp add: arrival_0 sample_ago_snoc_0)
  from insert_values_loop_transparent [OF tr c0] obtain b where
    b: "insert_values_loop [0..<?n - 1] a v
          = Inr (b, sample_ago ?h1 (arrival ds (?n - 1)))"
       "scats b = scats a" "carried ds (tubes b) (?n - 1) ?h1 h"
    unfolding v by auto
  from b(3) have lenb: "length (tubes b) = ?n" by (simp add: carried_def)
  then have bne: "tubes b \<noteq> []" using n by auto
  have
    cl: "tube_carries (tubes b ! (?n - 1)) (ds ! (?n - 1)) h (arrival ds (?n - 1))
           (way_back ds (?n - 1))"
    using carried_nth [OF b(3), of "?n - 1"] n by simp
  have gl: "py_get (tubes b) (- 1) = Inr (tubes b ! (?n - 1))"
    using py_get_last [OF bne] lenb by simp
  have dl: "0 \<le> ds ! (?n - 1)" using nn n by simp
  have a0: "0 \<le> arrival ds (?n - 1)" by (rule arrival_nonneg [OF nn])
  have b0: "0 \<le> way_back ds (?n - 1)" by (rule way_back_nonneg [OF nn])
  have e: "sample_ago h (exit_offset (ds ! (?n - 1)) + arrival ds (?n - 1))
             = sample_ago ?h1 (way_back ds (?n - 1))"
    unfolding way_back_last(1) [OF ne] way_back_last(2) [OF ne]
    using a0 exit_offset_nonneg [OF dl]
    by (simp add: transit_def sample_ago_snoc_pos add.commute)
  have plout: "read_outgoing (tubes b ! (?n - 1)) = Inr (sample_ago ?h1 (way_back ds (?n - 1)))"
    using carries_read_outgoing [OF cl] e by simp
  have "?n - 1 < length (scats b)" using tr b(2) n by (simp add: transparent_def)
  from scatter_in_range [OF this, of "sample_ago ?h1 (way_back ds (?n - 1))" 0]
  have sc: "scatter b (int (length (scats b)) - 1) (sample_ago ?h1 (way_back ds (?n - 1))) 0
              = Inr (0, - sample_ago ?h1 (way_back ds (?n - 1)))"
    using tr b(2) n
    by (simp add: transparent_def of_nat_diff open_end_def m00_def m01_def m10_def m11_def
        Suc_leI)
  from carries_step [OF cl a0 b0, of v] obtain t1 t2 where
    t: "insert_incoming_sample (tubes b ! (?n - 1)) (- sample_ago ?h1 (way_back ds (?n - 1)))
          = Inr t1"
       "insert_outgoing_sample t1 (sample_ago ?h1 (arrival ds (?n - 1))) = Inr t2"
       "tube_carries t2 (ds ! (?n - 1)) ?h1 (arrival ds (?n - 1)) (way_back ds (?n - 1))" by blast
  let ?c = "b\<lparr>tubes := (tubes b)[?n - 1 := t2]\<rparr>"
  have res: "insert_values a v 0 = Inr (?c, 0)"
    unfolding insert_values_def sl
    using b(1) gl plout sc lenb t(1,2) by simp
  have "carried ds (tubes ?c) 0 ?h1 ?h1"
    unfolding carried_def
  proof (intro conjI allI impI)
    show "length (tubes ?c) = ?n" using lenb by simp
    fix j assume j: "j < ?n"
    show "tube_carries (tubes ?c ! j) (ds ! j) (if j < 0 then ?h1 else ?h1)
            (arrival ds j) (way_back ds j)"
    proof (cases "j = ?n - 1")
      case True
      with t(3) lenb j show ?thesis by simp
    next
      case False
      with j have "j < ?n - 1" by simp
      with carried_nth [OF b(3), of j] j show ?thesis by simp
    qed
  qed
  with res b(2) show ?thesis by simp
qed

text \<open>What is read at the two ends of an assembly whose tubes carry \<open>h\<close>.\<close>

lemma reflected_pressure_carried:
  assumes "ds \<noteq> []" and "carried ds (tubes a) 0 h h"
  shows "get_reflected_pressure_at_end a = Inr (- sample_ago h (arrival ds (length ds)))"
proof -
  let ?n = "length ds"
  from assms have len: "length (tubes a) = ?n" and n: "0 < ?n" by (simp_all add: carried_def)
  then have ne: "tubes a \<noteq> []" by auto
  from carried_nth [OF assms(2), of "?n - 1"] n
  have "tube_carries (tubes a ! (?n - 1)) (ds ! (?n - 1)) h
      (arrival ds (?n - 1)) (way_back ds (?n - 1))" by simp
  then obtain ins outs where
    h: "tube_holds (tubes a ! (?n - 1)) ins outs" "smpl_prop_mult (tubes a ! (?n - 1)) = 1"
    and i: "\<forall>k. 0 \<le> k \<longrightarrow> sample_ago ins k = - sample_ago h (k + way_back ds (?n - 1))"
    unfolding tube_carries_def by blast
  from h(1) have d: "0 \<le> delay (tubes a ! (?n - 1))" by (simp add: tube_holds_def)
  from i way_back_last(1) [OF assms(1)]
  have "sample_ago ins 0 = - sample_ago h (arrival ds ?n)" by simp
  with read_incoming_at_pos_holds [OF h d order_refl] py_get_last [OF ne] len
  show ?thesis by (simp add: get_reflected_pressure_at_end_def)
qed

lemma input_pressure_carried:
  assumes "ds \<noteq> []" and "carried ds (tubes a) 0 h h"
  shows "get_incoming_pressure_at_start a = Inr (- sample_ago h (ds ! 0 + way_back ds 0))"
proof -
  from assms have len: "length (tubes a) = length ds" and n: "0 < length ds"
    by (simp_all add: carried_def)
  from carried_nth [OF assms(2), of 0] n
  have "tube_carries (tubes a ! 0) (ds ! 0) h (arrival ds 0) (way_back ds 0)" by simp
  then obtain ins outs where
    h: "tube_holds (tubes a ! 0) ins outs" "smpl_prop_mult (tubes a ! 0) = 1"
       "delay (tubes a ! 0) = ds ! 0"
    and i: "\<forall>k. 0 \<le> k \<longrightarrow> sample_ago ins k = - sample_ago h (k + way_back ds 0)"
    unfolding tube_carries_def by blast
  from h(1) have d: "0 \<le> delay (tubes a ! 0)" by (simp add: tube_holds_def)
  with i h(3) have "sample_ago ins (delay (tubes a ! 0)) = - sample_ago h (ds ! 0 + way_back ds 0)"
    by simp
  moreover have "py_get (tubes a) 0 = Inr (tubes a ! 0)"
    using n len py_get_in_range [of 0 "tubes a"] by simp
  ultimately show ?thesis
    using read_incoming_at_pos_holds [OF h(1,2) order_refl d]
    by (simp add: get_incoming_pressure_at_start_def)
qed

lemma run_values_transparent:
  "transparent ds (scats a) \<Longrightarrow> carried ds (tubes a) 0 h h \<Longrightarrow>
   \<exists>a1 outs. run_values a vs = Inr (a1, outs) \<and> map fst outs = replicate (length vs) 0 \<and>
     scats a1 = scats a \<and> carried ds (tubes a1) 0 (h @ vs) (h @ vs)"
proof (induction vs arbitrary: a h)
  case Nil
  then show ?case by simp
next
  case (Cons v vs)
  from Cons.prems(1) have ne: "ds \<noteq> []" by (simp add: transparent_def)
  from insert_values_transparent [OF Cons.prems, of v] obtain a1 where
    a1: "insert_values a v 0 = Inr (a1, 0)" "scats a1 = scats a"
        "carried ds (tubes a1) 0 (h @ [v]) (h @ [v])" by blast
  from input_pressure_carried [OF ne a1(3)] obtain p where
    p: "get_incoming_pressure_at_start a1 = Inr p" ..
  from Cons.prems(1) a1(2) have "transparent ds (scats a1)" by simp
  from Cons.IH [OF this a1(3)] obtain a2 outs where
    "run_values a1 vs = Inr (a2, outs)" "map fst outs = replicate (length vs) 0"
    "scats a2 = scats a1" "carried ds (tubes a2) 0 ((h @ [v]) @ vs) ((h @ [v]) @ vs)"
    by blast
  with a1 p show ?case by simp
qed

text \<open>The assembly built from lossless tubes of one radius.\<close>

lemma append_tubes_fresh:
  "junctions_ok a \<Longrightarrow> \<forall>t\<in>set (tubes a). fresh t \<Longrightarrow>
   \<forall>(d, r, l)\<in>set cfg. 0 \<le> d \<and> l = 0 \<Longrightarrow> append_tubes a cfg = Inr a1 \<Longrightarrow>
   \<forall>t\<in>set (tubes a1). fresh t"
proof (induction cfg arbitrary: a)
  case Nil
  then show ?case by simp
next
  case (Cons c cfg)
  obtain dly radius losses where c: "c = (dly, radius, losses)" by (cases c)
  from Cons.prems(3) c have d: "0 \<le> dly" "losses = 0"
    and rest: "\<forall>(d, r, l)\<in>set cfg. 0 \<le> d \<and> l = 0" by simp_all
  from Cons.prems(4) obtain a2 where
    a2: "append_tube a dly radius losses = Inr a2" "append_tubes a2 cfg = Inr a1"
    unfolding c append_tubes_Cons by blast
  from Cons.prems(1) have len: "length (scats a) = length (tubes a)"
    "length (radii a) = length (tubes a)" by (simp_all add: junctions_ok_def)
  from append_tube_result [OF len a2(1)] obtain t where
    t: "Tube_init dly losses = Inr t" "tubes a2 = tubes a @ [t]" by blast
  from Tube_init_lossless [OF d(1)] t(1) d have "fresh t"
    by (auto simp: fresh_def tube_holds_def)
  with t(2) Cons.prems(2) have f2: "\<forall>t\<in>set (tubes a2). fresh t" by simp
  from append_tube_junctions_ok [OF Cons.prems(1) a2(1)] have "junctions_ok a2" by simp
  from Cons.IH [OF this f2 rest a2(2)] show ?case .
qed

lemma build_transparent:
  assumes "cfg \<noteq> []" and "\<forall>(d, r', l)\<in>set cfg. 0 \<le> d \<and> r' = r \<and> l = 0"
    and "radius_in_range r"
  shows "\<exists>a. append_tubes TubeAssembly_init cfg = Inr a \<and>
           transparent (map fst cfg) (scats a) \<and> carried (map fst cfg) (tubes a) 0 [] []"
proof -
  let ?ds = "map fst cfg"
  have j0: "junctions_ok TubeAssembly_init" by (rule junctions_ok_init)
  have c1: "\<forall>(d, r', l)\<in>set cfg. 0 \<le> d \<and> radius_in_range r' \<and> l = 0"
    using assms(2,3) by auto
  have c2: "\<forall>(d, r', l)\<in>set cfg. 0 \<le> d \<and> l = 0" using assms(2) by auto
  from append_tubes_lossless [OF j0 _ c1] obtain a where
    a: "append_tubes TubeAssembly_init cfg = Inr a" by (auto simp: TubeAssembly_init_def)
  from append_tubes_junctions_ok [OF j0 a] have
    j: "junctions_ok a" and len: "length (tubes a) = length cfg"
    and rad: "radii a = map (fst \<circ> snd) cfg" by (simp_all add: TubeAssembly_init_def)
  from append_tubes_delays [OF j0 a] have del: "map delay (tubes a) = ?ds"
    by (simp add: TubeAssembly_init_def)
  from append_tubes_fresh [OF j0 _ c2 a] have fr: "\<forall>t\<in>set (tubes a). fresh t"
    by (simp add: TubeAssembly_init_def)
  from assms(3) have rnz: "r \<noteq> 0" by (auto simp: radius_in_range_def)
  have rj: "radii a ! j = r" if "j < length cfg" for j
  proof -
    from that have "cfg ! j \<in> set cfg" by simp
    with assms(2) have "fst (snd (cfg ! j)) = r" by (cases "cfg ! j") auto
    with that show ?thesis by (simp add: rad)
  qed
  have "transparent ?ds (scats a)"
    unfolding transparent_def
  proof (intro conjI allI impI)
    show "?ds \<noteq> []" using assms(1) by simp
    show "length (scats a) = length ?ds" using j len by (simp add: junctions_ok_def)
    show "scats a ! (length ?ds - 1) = open_end"
      using j len assms(1) by (auto simp: junctions_ok_def)
    fix i assume i: "Suc i < length ?ds"
    with j len have "scats a ! i = newscat (radii a ! i) (radii a ! Suc i)"
      by (simp add: junctions_ok_def)
    also have "\<dots> = newscat r r" using i rj [of i] rj [of "Suc i"] by simp
    also have "\<dots> = ((1, 0), (0, 1))" by (rule newscat_transparent [OF refl rnz])
    finally show "scats a ! i = ((1, 0), (0, 1))" .
  qed
  moreover have "carried ?ds (tubes a) 0 [] []"
    unfolding carried_def
  proof (intro conjI allI impI)
    show "length (tubes a) = length ?ds" using len by simp
    fix i assume i: "i < length ?ds"
    then have "tubes a ! i \<in> set (tubes a)" using len by simp
    with fr have "fresh (tubes a ! i)" by blast
    moreover have "delay (tubes a ! i) = ?ds ! i"
      using i len nth_map [of i "tubes a" delay] del by simp
    ultimately show "tube_carries (tubes a ! i) (?ds ! i) (if i < 0 then [] else [])
        (arrival ?ds i) (way_back ?ds i)"
      using fresh_carries [of "tubes a ! i"] by simp
  qed
  ultimately show ?thesis using a by blast
qed

lemma lossless_run:
  assumes "cfg \<noteq> []" and "\<forall>(d, r', l)\<in>set cfg. 0 \<le> d \<and> r' = r \<and> l = 0"
    and "radius_in_range r"
  shows "radiated cfg vs = Inr (replicate (length vs) 0)"
    and "reflected_at_end cfg vs
           = Inr (- sample_ago vs (arrival (map fst cfg) (length cfg)))"
proof -
  let ?ds = "map fst cfg"
  from build_transparent [OF assms] obtain a where
    a: "append_tubes TubeAssembly_init cfg = Inr a" "transparent ?ds (scats a)"
       "carried ?ds (tubes a) 0 [] []" by blast
  from run_values_transparent [OF a(2,3), of vs] obtain a1 outs where
    r: "run_values a vs = Inr (a1, outs)" "map fst outs = replicate (length vs) 0"
       "carried ?ds (tubes a1) 0 vs vs" by auto
  from a(1) r(1,2) show "radiated cfg vs = Inr (replicate (length vs) 0)"
    by (simp add: radiated_def simulate_def)
  from assms(1) have "?ds \<noteq> []" by simp
  from reflected_pressure_carried [OF this r(3)] a(1) r(1)
  show "reflected_at_end cfg vs = Inr (- sample_ago vs (arrival ?ds (length cfg)))"
    by (simp add: reflected_at_end_def)
qed

text \<open>
  Claim C2 says that with no loss and equal radii a unit impulse appears with unit
  magnitude in the value returned by \<open>insert_values\<close>, after as many ticks as the total
  delay.  The last junction is always the open-end matrix, whose transmission entry is 0:
  with \<^verbatim>\<open>ret_val = 0\<close> every tick returns 0.  Below, one tube of delay 3, and two tubes
  of delays 3 and 2 with equal radii, are fed a unit impulse and nine zeros.
\<close>

theorem lossless_exit_counterexample:
  "radiated [(3, 1, 0)] (1 # replicate 9 0) = Inr (replicate 10 0) \<and>
   radiated [(3, 1, 0), (2, 1, 0)] (1 # replicate 9 0) = Inr (replicate 10 0)"
proof -
  have 1: "\<forall>(d, r', l)\<in>set [(3::int, 1::real, 0::real)]. 0 \<le> d \<and> r' = 1 \<and> l = 0" by simp
  have 2: "\<forall>(d, r', l)\<in>set [(3::int, 1::real, 0::real), (2, 1, 0)]. 0 \<le> d \<and> r' = 1 \<and> l = 0"
    by simp
  have l: "length (1 # replicate 9 (0::real)) = 10" by simp
  note r = small_radii_in_range(1)
  from lossless_run(1) [OF _ 1 r, of "1 # replicate 9 0"]
       lossless_run(1) [OF _ 2 r, of "1 # replicate 9 0"]
  show ?thesis unfolding l by simp
qed

text \<open>
  Claim C2, amended.  For an assembly of one or more tubes of delay at least 2, built with
  loss rate 0 and one radius of magnitude between \<open>2 ^ - 500\<close> and \<open>2 ^ 500\<close>, an impulse
  \<open>v\<close> followed by zeros is fed through \<open>insert_values\<close> with \<^verbatim>\<open>ret_val = 0\<close>.  Every tick
  returns 0: nothing leaves the terminal end.  The impulse reaches the terminal junction
  unattenuated and is reflected there: what the junction writes into the incoming line
  of the last tube is \<open>- v\<close> on the tick whose number is the total delay minus the number
  of tubes plus 1 (the total delay for a single tube), and 0 on every other tick.
\<close>

theorem impulse_reflected_at_open_end:
  assumes "cfg \<noteq> []" and "\<forall>(d, r', l)\<in>set cfg. 2 \<le> d \<and> r' = r \<and> l = 0"
    and "radius_in_range r"
  shows "radiated cfg (v # replicate m 0) = Inr (replicate (Suc m) 0) \<and>
         reflected_at_end cfg (v # replicate m 0)
           = Inr (if int (Suc m) = sum_list (map fst cfg) - int (length cfg) + 1
                  then - v else 0)"
proof -
  let ?ds = "map fst cfg"
  have c: "\<forall>(d, r', l)\<in>set cfg. 0 \<le> d \<and> r' = r \<and> l = 0" using assms(2) by auto
  have "\<forall>d\<in>set ?ds. 2 \<le> d" using assms(2) by auto
  from arrival_ge_2 [OF this] have A: "arrival ?ds (length cfg) = sum_list ?ds - int (length cfg)"
    by simp
  have "int (length ?ds) \<le> sum_list ?ds"
    using \<open>\<forall>d\<in>set ?ds. 2 \<le> d\<close> by (induction cfg) auto
  then have k: "0 \<le> sum_list ?ds - int (length cfg)" by simp
  have 1: "radiated cfg (v # replicate m 0) = Inr (replicate (Suc m) 0)"
    using lossless_run(1) [OF assms(1) c assms(3), of "v # replicate m 0"] by simp
  have 2: "reflected_at_end cfg (v # replicate m 0)
             = Inr (if int (Suc m) = sum_list ?ds - int (length cfg) + 1 then - v else 0)"
    unfolding lossless_run(2) [OF assms(1) c assms(3)] A impulse_ago [OF k] by auto
  from 1 2 show ?thesis ..
qed

theorem impulse_reflected_at_open_end_witness:
  "[(3::int, 1::real, 0::real), (2, 1, 0)] \<noteq> [] \<and> radius_in_range 1 \<and>
   radiated [(3, 1, 0), (2, 1, 0)] [1, 0, 0, 0] = Inr [0, 0, 0, 0] \<and>
   reflected_at_end [(3, 1, 0), (2, 1, 0)] [1, 0, 0, 0] = Inr (- 1) \<and>
   reflected_at_end [(3, 1, 0), (2, 1, 0)] [1, 0, 0, 0, 0] = Inr 0"
proof -
  have h: "[(3::int, 1::real, 0::real), (2, 1, 0)] \<noteq> []"
    "\<forall>(d, r', l)\<in>set [(3::int, 1::real, 0::real), (2, 1, 0)]. 2 \<le> d \<and> r' = 1 \<and> l = 0"
    by simp_all
  note r = small_radii_in_range(1)
  have e3: "1 # replicate 3 (0::real) = [1, 0, 0, 0]"
    and e4: "1 # replicate 4 (0::real) = [1, 0, 0, 0, 0]"
    and z: "replicate (Suc 3) (0::real) = [0, 0, 0, 0]" by (simp_all add: numeral_eq_Suc)
  from impulse_reflected_at_open_end [OF h r, of 1 3] have
    a: "radiated [(3, 1, 0), (2, 1, 0)] [1, 0, 0, 0] = Inr [0, 0, 0, 0]"
       "reflected_at_end [(3, 1, 0), (2, 1, 0)] [1, 0, 0, 0] = Inr (- 1)"
    unfolding e3 z by simp_all
  from impulse_reflected_at_open_end [OF h r, of 1 4] have
    b: "reflected_at_end [(3, 1, 0), (2, 1, 0)] [1, 0, 0, 0, 0] = Inr 0"
    unfolding e4 by simp
  from h(1) r a b show ?thesis by blast
qed

section \<open>Properties of the assembly: the round trip in a single tube\<close>

lemma single_step:
  assumes inv: "single_inv d a outs"
  shows "\<exists>a1. insert_values a v 0 = Inr (a1, 0) \<and> single_inv d a1 (outs @ [v]) \<and>
           get_incoming_pressure_at_start a1
             = Inr (- sample_ago (outs @ [v]) (round_trip d - 1))"
proof -
  from inv obtain t ins where
    a: "tubes a = [t]" "scats a = [open_end]" and h: "tube_holds t ins outs"
    and f: "delay t = d" "prop_mult t = 1" "smpl_prop_mult t = 1"
    and r: "\<forall>k. 0 \<le> k \<longrightarrow> sample_ago ins k = - sample_ago outs (k + exit_offset d + 1)"
    unfolding single_inv_def by blast
  from h f(1) have d: "0 \<le> d" by (simp add: tube_holds_def)
  note q = exit_offset_nonneg [OF d]
  let ?plout = "sample_ago outs (exit_offset d)"
  have ro: "read_outgoing t = Inr ?plout"
    using read_outgoing_holds [OF h] f by (simp add: exit_offset_def)
  have sc: "scatter a 0 ?plout 0 = Inr (0, - ?plout)"
    using scatter_in_range [of 0 a ?plout 0] a(2)
    by (simp add: open_end_def m00_def m01_def m10_def m11_def)
  from insert_incoming_holds [OF h, of "- ?plout"] obtain t1 where
    t1: "insert_incoming_sample t (- ?plout) = Inr t1" "tube_holds t1 (ins @ [- ?plout]) outs"
        "delay t1 = delay t" "prop_mult t1 = prop_mult t" "smpl_prop_mult t1 = smpl_prop_mult t"
    by blast
  from insert_outgoing_holds [OF t1(2), of v] obtain t2 where
    t2: "insert_outgoing_sample t1 v = Inr t2" "tube_holds t2 (ins @ [- ?plout]) (outs @ [v])"
        "delay t2 = delay t1" "prop_mult t2 = prop_mult t1"
        "smpl_prop_mult t2 = smpl_prop_mult t1"
    by blast
  let ?a1 = "a\<lparr>tubes := [t2]\<rparr>"
  have gl: "py_get [t] (- 1) = Inr t" by (simp add: py_get_def py_index_def)
  have res: "insert_values a v 0 = Inr (?a1, 0)"
    unfolding insert_values_def
    by (simp add: a py_slice_to_def gl ro sc t1(1) t2(1))
  have r1: "sample_ago (ins @ [- ?plout]) k = - sample_ago (outs @ [v]) (k + exit_offset d + 1)"
    if k: "0 \<le> k" for k
  proof (cases "k = 0")
    case True
    have "sample_ago (outs @ [v]) (exit_offset d + 1) = sample_ago outs (exit_offset d)"
      using q by (simp add: sample_ago_snoc_pos)
    with True show ?thesis by (simp add: sample_ago_snoc_0)
  next
    case False
    with k have kp: "0 < k" by simp
    then have "sample_ago (ins @ [- ?plout]) k = sample_ago ins (k - 1)"
      by (rule sample_ago_snoc_pos)
    also have "\<dots> = - sample_ago outs (k - 1 + exit_offset d + 1)" using r kp by simp
    also have "sample_ago outs (k - 1 + exit_offset d + 1)
                 = sample_ago (outs @ [v]) (k + exit_offset d + 1)"
      using kp q by (simp add: sample_ago_snoc_pos)
    finally show ?thesis .
  qed
  have inv1: "single_inv d ?a1 (outs @ [v])"
    unfolding single_inv_def using a(2) t2 t1(3-5) f r1 by auto
  have g0: "py_get [t2] 0 = Inr t2" by (simp add: py_get_def py_index_def)
  have s2: "smpl_prop_mult t2 = 1" and d2: "delay t2 = d" using t2(3,5) t1(3,5) f by simp_all
  have "read_incoming_at_pos t2 0 = Inr (sample_ago (ins @ [- ?plout]) d)"
    using read_incoming_at_pos_holds [OF t2(2) s2, of 0] d d2 by simp
  also have "sample_ago (ins @ [- ?plout]) d = - sample_ago (outs @ [v]) (round_trip d - 1)"
  proof -
    have e: "round_trip d - 1 = d + exit_offset d + 1" by (simp add: round_trip_def)
    show ?thesis unfolding e by (rule r1 [OF d])
  qed
  finally have "get_incoming_pressure_at_start ?a1
                  = Inr (- sample_ago (outs @ [v]) (round_trip d - 1))"
    by (simp add: get_incoming_pressure_at_start_def g0)
  with res inv1 show ?thesis by blast
qed

lemma single_run:
  "single_inv d a outs \<Longrightarrow>
   \<exists>a1. run_values a vs
          = Inr (a1, map (\<lambda>n. (0, - sample_ago (outs @ take n vs) (round_trip d - 1)))
                       [1..<Suc (length vs)])"
proof (induction vs arbitrary: a outs)
  case Nil
  then show ?case by simp
next
  case (Cons v vs)
  let ?f = "\<lambda>n. (0::real, - sample_ago (outs @ take n (v # vs)) (round_trip d - 1))"
  from single_step [OF Cons.prems, of v] obtain a1 where
    a1: "insert_values a v 0 = Inr (a1, 0)" "single_inv d a1 (outs @ [v])"
        "get_incoming_pressure_at_start a1 = Inr (- sample_ago (outs @ [v]) (round_trip d - 1))"
    by blast
  from Cons.IH [OF a1(2)] obtain a2 where
    a2: "run_values a1 vs
           = Inr (a2, map (\<lambda>n. (0, - sample_ago ((outs @ [v]) @ take n vs) (round_trip d - 1)))
                        [1..<Suc (length vs)])" ..
  have "[1..<Suc (length (v # vs))] = 1 # map Suc [1..<Suc (length vs)]"
    by (simp add: upt_conv_Cons map_Suc_upt del: upt_Suc)
  then have "map ?f [1..<Suc (length (v # vs))]
               = ?f 1 # map (\<lambda>n. ?f (Suc n)) [1..<Suc (length vs)]"
    by (simp add: comp_def del: upt_Suc)
  also have "\<dots> = (0, - sample_ago (outs @ [v]) (round_trip d - 1))
                 # map (\<lambda>n. (0, - sample_ago ((outs @ [v]) @ take n vs) (round_trip d - 1)))
                       [1..<Suc (length vs)]"
    by simp
  finally show ?case using a1(1,3) a2 by (simp del: upt_Suc)
qed

lemma single_init:
  assumes "0 \<le> d" and "append_tubes TubeAssembly_init [(d, r, 0)] = Inr a"
  shows "single_inv d a []"
proof -
  from Tube_init_lossless [OF assms(1)] obtain t where
    t: "Tube_init d 0 = Inr t" "tube_wf t" "delay t = d"
       "dl_holds (dlin t) []" "dl_holds (dlout t) []"
       "prop_mult t = 1" "smpl_prop_mult t = 1" by blast
  have "append_tube TubeAssembly_init d r 0
          = Inr (TubeAssembly_init\<lparr>tubes := [t], scats := [open_end], radii := [r]\<rparr>)"
    using t(1) by (simp add: append_tube_def connect_tubes_def TubeAssembly_init_def)
  with assms(2) have a: "tubes a = [t]" "scats a = [open_end]" by auto
  have "tube_holds t [] []" using t assms(1) by (simp add: tube_holds_def)
  with a t show ?thesis by (auto simp: single_inv_def sample_ago_Nil)
qed

lemma single_tube_pressures:
  assumes "0 \<le> d"
  shows "input_pressures [(d, r, 0)] vs
           = Inr (map (\<lambda>n. - sample_ago (take n vs) (round_trip d - 1)) [1..<Suc (length vs)])"
proof -
  from Tube_init_lossless [OF assms] obtain t where t: "Tube_init d 0 = Inr t" by blast
  have "\<exists>a. append_tubes TubeAssembly_init [(d, r, 0)] = Inr a"
    using t by (simp add: append_tube_def connect_tubes_def TubeAssembly_init_def)
  then obtain a where a: "append_tubes TubeAssembly_init [(d, r, 0)] = Inr a" ..
  from single_run [OF single_init [OF assms a], of vs] obtain a1 where
    "run_values a vs
       = Inr (a1, map (\<lambda>n. (0, - sample_ago ([] @ take n vs) (round_trip d - 1)))
                    [1..<Suc (length vs)])" ..
  with a show ?thesis
    by (simp add: input_pressures_def simulate_def comp_def del: upt_Suc)
qed

lemma impulse_pressures:
  assumes "0 \<le> d"
  shows "input_pressures [(d, r, 0)] (v # replicate m 0)
           = Inr (map (\<lambda>n. if int n = round_trip d then - v else 0) [1..<m + 2])"
proof -
  have "map (\<lambda>n. - sample_ago (take n (v # replicate m 0)) (round_trip d - 1)) [1..<m + 2]
          = map (\<lambda>n. if int n = round_trip d then - v else 0) [1..<m + 2]"
  proof (rule map_cong [OF refl])
    fix n assume "n \<in> set [1..<m + 2]"
    then have n: "1 \<le> n" "n \<le> m + 1" by auto
    then obtain n' where n': "n = Suc n'" by (cases n) simp_all
    have tk: "take n (v # replicate m 0) = v # replicate n' 0" using n n' by (simp add: min_def)
    have k: "0 \<le> round_trip d - 1"
      using assms exit_offset_nonneg [OF assms] by (simp add: round_trip_def)
    show "- sample_ago (take n (v # replicate m 0)) (round_trip d - 1)
            = (if int n = round_trip d then - v else 0)"
      unfolding tk impulse_ago [OF k] using n' by auto
  qed
  with single_tube_pressures [OF assms, of r "v # replicate m 0"] show ?thesis
    by (simp del: upt_Suc)
qed

text \<open>
  For a delay of at least 2 the impulse inserted at the first tick is read at the input,
  sign-inverted, after \<open>2 * d\<close> ticks, and 0 is read at every other tick.
\<close>

lemma round_trip_ge_2:
  assumes "2 \<le> d"
  shows "input_pressures [(d, r, 0)] (v # replicate m 0)
           = Inr (map (\<lambda>n. if int n = 2 * d then - v else 0) [1..<m + 2])"
proof -
  have "round_trip d = 2 * d" using assms by (simp add: round_trip_def exit_offset_ge_2)
  with impulse_pressures [of d r v m] assms show ?thesis by simp
qed

lemma reference_scenario:
  "input_pressures [(3, 1, 0)] (9 / 10 # replicate 8 0)
     = Inr [0, 0, 0, 0, 0, - (9 / 10), 0, 0, 0]"
proof -
  have "[1..<8 + 2] = [1, 2, 3, 4, 5, 6, 7, 8, 9::nat]" by (simp add: upt_rec)
  with round_trip_ge_2 [of 3 1 "9 / 10" 8] show ?thesis by simp
qed

text \<open>
  Claim C1 says that for a single lossless tube of delay \<open>d\<close> the impulse is read at the
  input after \<open>2 * d\<close> ticks and 0 at every other tick.  That holds for every delay of
  at least 2 (\<open>round_trip_ge_2\<close>, and \<open>reference_scenario\<close> for the delay 3 and the value
  0.9).  For the delay 1, the default of \<open>append_tube\<close>, the exit of the outgoing line is
  read at offset \<open>delay - 2 = -1\<close>, which the line reduces modulo its capacity 6 to the
  offset 5: the impulse is read at the input after 8 ticks and not after 2.
\<close>

theorem round_trip_delay_1:
  "input_pressures [(1, 1, 0)] (9 / 10 # replicate 9 0)
     = Inr [0, 0, 0, 0, 0, 0, 0, - (9 / 10), 0, 0]"
proof -
  have u: "[1..<9 + 2] = [1, 2, 3, 4, 5, 6, 7, 8, 9, 10::nat]" by (simp add: upt_rec)
  have "round_trip 1 = 8" by (simp add: round_trip_def exit_offset_def)
  with impulse_pressures [of 1 1 "9 / 10" 9] u show ?thesis by simp
qed

end
